theory Spec2Isabelle
  imports Complex_Main "HOL-Library.AList"
begin

section \<open>JavaScript values used by the link component\<close>

text \<open>
  A value that the source distinguishes three ways: \<open>undefined\<close>, \<open>null\<close> or present.
  \<open>firstNonUndefined\<close> skips only \<open>undefined\<close>, so the difference between \<open>undefined\<close> and
  \<open>null\<close> is kept wherever that function sees the value.
\<close>

datatype 'a nullable = Undefined | Null | Val 'a

text \<open>\<open>x || null\<close> on such a value, as an optional string (\<open>None\<close> is \<open>null\<close>).\<close>

fun or_null :: "string nullable \<Rightarrow> string option" where
  "or_null (Val s) = (if s = [] then None else Some s)"
| "or_null _ = None"

text \<open>\<open>String.prototype.startsWith\<close>.\<close>

definition startsWith :: "string \<Rightarrow> string \<Rightarrow> bool" where
  "startsWith s p = (take (length p) s = p)"

text \<open>
  \<open>String.prototype.split\<close> with a one-character separator: the pieces between the
  occurrences of the separator, always at least one piece.
\<close>

fun split_on :: "char \<Rightarrow> string \<Rightarrow> string list" where
  "split_on c [] = [[]]"
| "split_on c (x # xs) =
     (if x = c then [] # split_on c xs
      else (case split_on c xs of
              [] \<Rightarrow> [[x]]
            | p # ps \<Rightarrow> (x # p) # ps))"

section \<open>The functions imported from the URL library\<close>

text \<open>
  \<open>hasProtocol\<close>, \<open>joinURL\<close>, \<open>withTrailingSlash\<close> and \<open>withoutTrailingSlash\<close> come from the
  package \<open>ufo\<close>, which is not part of this repository. They are parameters of the model.
  The boolean of \<open>hasProtocol\<close> is the option \<open>acceptRelative\<close>; the boolean of the two
  slash functions is their second argument \<open>respectQueryAndFragment\<close>.
\<close>

record ufo =
  hasProtocol :: "string \<Rightarrow> bool \<Rightarrow> bool"
  joinURL :: "string \<Rightarrow> string \<Rightarrow> string"
  withTrailingSlash :: "string \<Rightarrow> bool \<Rightarrow> string"
  withoutTrailingSlash :: "string \<Rightarrow> bool \<Rightarrow> string"

section \<open>Options, props and route locations\<close>

datatype trailingSlash = Append | Remove

text \<open>
  \<open>NuxtLinkOptions\<close>. An absent \<open>trailingSlash\<close> is \<open>None\<close>. The class options are optional
  strings; they are only ever read through \<open>||\<close>.
\<close>

record options =
  externalRelAttribute :: "string nullable"
  activeClass :: "string option"
  exactActiveClass :: "string option"
  prefetchedClass :: "string option"
  trailingSlash :: "trailingSlash option"

text \<open>
  A route location object (the object form of \<open>RouteLocationRaw\<close>). \<open>name\<close> is \<open>None\<close> when
  it is \<open>undefined\<close>; \<open>path\<close> is \<open>None\<close> when the object has no \<open>path\<close> key
  (\<open>'path' in to\<close> is false). The remaining keys (query, hash, params ...) are carried along
  untouched in \<open>rest\<close>.
\<close>

record 'r route =
  name :: "string option"
  path :: "string option"
  rest :: 'r

datatype 'r location = Str string | Obj "'r route"

text \<open>What \<open>router.resolve\<close> returns, as far as the component reads it.\<close>

record resolved =
  r_path :: string
  r_fullPath :: string
  r_href :: "string option"

text \<open>
  \<open>NuxtLinkProps\<close>. Every prop defaults to \<open>undefined\<close>. For the boolean props \<open>None\<close> is
  \<open>undefined\<close>. \<open>target\<close> is only tested for truthiness and compared with string
  constants, so \<open>undefined\<close> and \<open>null\<close> are both \<open>None\<close> there. \<open>rel\<close> reaches
  \<open>firstNonUndefined\<close> and keeps all three cases.
\<close>

record 'r props =
  to :: "'r location option"
  href :: "'r location option"
  external :: "bool option"
  replace :: "bool option"
  custom :: "bool option"
  target :: "string option"
  rel :: "string nullable"
  noRel :: "bool option"
  prefetch :: "bool option"
  noPrefetch :: "bool option"
  p_activeClass :: "string option"
  p_exactActiveClass :: "string option"
  p_prefetchedClass :: "string option"
  ariaCurrentValue :: "string option"

text \<open>Truthiness of an optional boolean, an optional string and a location.\<close>

definition is_true :: "bool option \<Rightarrow> bool" where
  "is_true b = (b = Some True)"

definition nonempty :: "string option \<Rightarrow> bool" where
  "nonempty s = (case s of None \<Rightarrow> False | Some x \<Rightarrow> x \<noteq> [])"

fun loc_truthy :: "'r location option \<Rightarrow> bool" where
  "loc_truthy None = False"
| "loc_truthy (Some (Str s)) = (s \<noteq> [])"
| "loc_truthy (Some (Obj _)) = True"

section \<open>Trailing-slash normalisation\<close>

text \<open>
  \<open>applyTrailingSlashBehavior\<close>. The destructuring \<open>[link, fragment] = to.split('#')\<close> takes
  the first two pieces of the split and ignores any further ones; \<open>fragment\<close> is
  \<open>undefined\<close> when there is no \<open>#\<close>, and \<open>if (fragment)\<close> holds for a non-empty second
  piece only.
\<close>

definition normalizeFn :: "ufo \<Rightarrow> trailingSlash \<Rightarrow> string \<Rightarrow> bool \<Rightarrow> string" where
  "normalizeFn u ts = (if ts = Append then withTrailingSlash u else withoutTrailingSlash u)"

definition applyTrailingSlashBehavior :: "ufo \<Rightarrow> string \<Rightarrow> trailingSlash \<Rightarrow> string" where
  "applyTrailingSlashBehavior u t ts =
     (let hasProtocolDifferentFromHttp = (hasProtocol u t False \<and> \<not> startsWith t ''http'')
      in if hasProtocolDifferentFromHttp then t
         else (case split_on CHR ''#'' t of
                 link # fragment # _ \<Rightarrow>
                   (if fragment \<noteq> [] then normalizeFn u ts link True @ ''#'' @ fragment
                    else normalizeFn u ts t True)
               | _ \<Rightarrow> normalizeFn u ts t True))"

text \<open>
  \<open>resolveTrailingSlashBehavior\<close>. \<open>!to\<close> holds for the empty string only (an object is
  truthy). The result of the object branch is the spread of \<open>to\<close> with \<open>name\<close> set to
  \<open>undefined\<close> and \<open>path\<close> replaced.
\<close>

definition resolveTrailingSlashBehavior ::
  "ufo \<Rightarrow> options \<Rightarrow> ('r location \<Rightarrow> resolved) \<Rightarrow> 'r location \<Rightarrow> 'r location" where
  "resolveTrailingSlashBehavior u opts resolve t =
     (if t = Str [] \<or> trailingSlash opts = None then t
      else (case (trailingSlash opts, t) of
              (Some ts, Str s) \<Rightarrow> Str (applyTrailingSlashBehavior u s ts)
            | (Some ts, Obj ob) \<Rightarrow>
                (let p = (case path ob of Some p \<Rightarrow> p | None \<Rightarrow> r_path (resolve t))
                 in Obj (ob\<lparr>name := None, path := Some (applyTrailingSlashBehavior u p ts)\<rparr>))
            | (None, _) \<Rightarrow> t))"

section \<open>The computed values of \<open>setup\<close>\<close>

text \<open>\<open>a || b\<close> on locations and on optional strings.\<close>

definition loc_or :: "'r location option \<Rightarrow> 'r location \<Rightarrow> 'r location" where
  "loc_or a b = (case a of Some l \<Rightarrow> (if loc_truthy a then l else b) | None \<Rightarrow> b)"

definition str_or :: "string option \<Rightarrow> string option \<Rightarrow> string option" where
  "str_or a b = (if nonempty a then a else b)"

text \<open>
  The collaborators of \<open>setup\<close> that are not in this file: the URL library, the link
  options, \<open>router.resolve\<close> and \<open>config.app.baseURL\<close>.
\<close>

record 'r env =
  lib :: ufo
  opts :: options
  resolve :: "'r location \<Rightarrow> resolved"
  baseURL :: string

text \<open>The computed \<open>to\<close>: \<open>props.to || props.href || ''\<close>, then trailing-slash handling.\<close>

definition to_value :: "'r env \<Rightarrow> 'r props \<Rightarrow> 'r location" where
  "to_value e props =
     (let path = loc_or (to props) (loc_or (href props) (Str []))
      in resolveTrailingSlashBehavior (lib e) (opts e) (resolve e) path)"

definition isProtocolURL :: "'r env \<Rightarrow> 'r props \<Rightarrow> bool" where
  "isProtocolURL e props =
     (case to_value e props of Str s \<Rightarrow> hasProtocol (lib e) s True | Obj _ \<Rightarrow> False)"

definition isExternal :: "'r env \<Rightarrow> 'r props \<Rightarrow> bool" where
  "isExternal e props =
     (if is_true (external props) then True
      else if nonempty (target props) \<and> target props \<noteq> Some ''_self'' then True
      else (case to_value e props of
              Obj _ \<Rightarrow> False
            | Str s \<Rightarrow> s = [] \<or> isProtocolURL e props))"

text \<open>
  The \<open>href\<close> of the external branch of the render function. \<open>None\<close> is \<open>null\<close>. The cast
  \<open>as string\<close> has no run-time effect; \<open>resolveTrailingSlashBehavior\<close> returns a string
  for a string.
\<close>

definition external_href :: "'r env \<Rightarrow> 'r props \<Rightarrow> string option" where
  "external_href e props =
     (case to_value e props of
        Obj ob \<Rightarrow> r_href (resolve e (Obj ob))
      | Str s \<Rightarrow>
          (if s \<noteq> [] \<and> \<not> is_true (external props) \<and> \<not> isProtocolURL e props
           then (case resolveTrailingSlashBehavior (lib e) (opts e) (resolve e)
                        (Str (joinURL (lib e) (baseURL e) s)) of
                   Str s' \<Rightarrow> Some s'
                 | Obj _ \<Rightarrow> None)
           else (if s = [] then None else Some s)))"

text \<open>\<open>firstNonUndefined\<close>: \<open>args.find(arg => arg !== undefined)\<close>, \<open>undefined\<close> when none.\<close>

fun firstNonUndefined :: "'a nullable list \<Rightarrow> 'a nullable" where
  "firstNonUndefined [] = Undefined"
| "firstNonUndefined (Undefined # as) = firstNonUndefined as"
| "firstNonUndefined (a # as) = a"

definition DEFAULT_EXTERNAL_REL_ATTRIBUTE :: string where
  "DEFAULT_EXTERNAL_REL_ATTRIBUTE = ''noopener noreferrer''"

text \<open>The \<open>rel\<close> of the external branch, from the \<open>href\<close> computed before it.\<close>

definition external_rel :: "options \<Rightarrow> 'r props \<Rightarrow> string option \<Rightarrow> string option" where
  "external_rel os props h =
     (if is_true (noRel props) then None
      else or_null (firstNonUndefined
             [rel props, externalRelAttribute os,
              Val (if nonempty h then DEFAULT_EXTERNAL_REL_ATTRIBUTE else [])]))"

section \<open>The render function\<close>

text \<open>
  The props handed to \<open>RouterLink\<close>; \<open>class\<close> and \<open>rel\<close> are set only when \<open>custom\<close> is not.
  The object passed to a custom slot, without its two closures \<open>navigate\<close> and \<open>route\<close>.
\<close>

record 'r routerLinkProps =
  l_to :: "'r location"
  l_activeClass :: "string option"
  l_exactActiveClass :: "string option"
  l_replace :: "bool option"
  l_ariaCurrentValue :: "string option"
  l_custom :: "bool option"
  l_class :: "string option"
  l_rel :: "string nullable"

record slotProps =
  s_href :: "string option"
  s_rel :: "string option"
  s_target :: "string option"
  s_isExternal :: bool
  s_isActive :: bool
  s_isExactActive :: bool

text \<open>
  A slot is a function of the slot props; \<open>slots.default?.()\<close> calls it without any.
  What the render function returns: the router's link component with the slot handed on,
  \<open>null\<close>, the output of the custom slot, or an anchor with \<open>href\<close>, \<open>rel\<close>, \<open>target\<close> and
  children.
\<close>

type_synonym 'v slot = "slotProps option \<Rightarrow> 'v"

datatype ('r, 'v) rendered =
    RouterLink "'r routerLinkProps" "'v slot option"
  | RenderNull
  | SlotOutput 'v
  | Anchor "string option" "string option" "string option" "'v option"

definition render :: "'r env \<Rightarrow> 'r props \<Rightarrow> 'v slot option \<Rightarrow> bool \<Rightarrow> ('r, 'v) rendered" where
  "render e props slot prefetched =
     (if \<not> isExternal e props then
        RouterLink
          \<lparr> l_to = to_value e props,
            l_activeClass = str_or (p_activeClass props) (activeClass (opts e)),
            l_exactActiveClass = str_or (p_exactActiveClass props) (exactActiveClass (opts e)),
            l_replace = replace props,
            l_ariaCurrentValue = ariaCurrentValue props,
            l_custom = custom props,
            l_class = (if \<not> is_true (custom props) \<and> prefetched
                       then str_or (p_prefetchedClass props) (prefetchedClass (opts e))
                       else None),
            l_rel = (if \<not> is_true (custom props) then rel props else Undefined) \<rparr>
          slot
      else
        (let h = external_href e props;
             tg = (if nonempty (target props) then target props else None);
             r = external_rel (opts e) props h
         in if is_true (custom props) then
              (case slot of
                 None \<Rightarrow> RenderNull
               | Some f \<Rightarrow>
                   SlotOutput (f (Some \<lparr> s_href = h, s_rel = r, s_target = tg,
                                          s_isExternal = isExternal e props,
                                          s_isActive = False, s_isExactActive = False \<rparr>)))
            else Anchor h r tg (map_option (\<lambda>f. f None) slot)))"

section \<open>Arming the prefetch\<close>

text \<open>
  \<open>navigator.connection\<close>, \<open>None\<close> when the browser has none. \<open>/2g/.test(s)\<close> holds when
  \<open>s\<close> contains the two characters \<open>2g\<close>.
\<close>

record connection =
  saveData :: bool
  effectiveType :: string

fun contains :: "string \<Rightarrow> string \<Rightarrow> bool" where
  "contains p [] = (p = [])"
| "contains p (x # xs) = (startsWith (x # xs) p \<or> contains p xs)"

text \<open>
  \<open>isSlowConnection\<close>. The first argument is \<open>import.meta.server\<close>; there the function
  returns \<open>undefined\<close> (\<open>None\<close>).
\<close>

definition isSlowConnection :: "bool \<Rightarrow> connection option \<Rightarrow> bool option" where
  "isSlowConnection server cn =
     (if server then None
      else (case cn of
              Some c \<Rightarrow> (if saveData c \<or> contains ''2g'' (effectiveType c) then Some True
                         else Some False)
            | None \<Rightarrow> Some False))"

definition shouldPrefetch :: "'r props \<Rightarrow> bool option \<Rightarrow> bool" where
  "shouldPrefetch props slow =
     (prefetch props \<noteq> Some False \<and> noPrefetch props \<noteq> Some True
      \<and> target props \<noteq> Some ''_blank'' \<and> \<not> is_true slow)"

section \<open>The shared intersection observer\<close>

text \<open>
  The browser's \<open>IntersectionObserver\<close>, as far as \<open>useObserver\<close> uses it: the set of
  elements it observes. \<open>wid\<close> numbers the instances in the order of their construction;
  it is not in the source and only tells one instance from another.
\<close>

record 'e watcher =
  wid :: nat
  targets :: "'e set"

text \<open>
  The state that the closures of \<open>useObserver\<close> share: the variable \<open>observer\<close> (\<open>None\<close> is
  \<open>null\<close>) and the map \<open>callbacks\<close>, kept in insertion order as a JavaScript \<open>Map\<close> is.
  \<open>created\<close> counts the calls of \<open>new IntersectionObserver\<close> and \<open>disconnected\<close> the
  calls of \<open>disconnect\<close>; both only record what happened.
\<close>

record ('e, 'c) registry =
  observer :: "'e watcher option"
  callbacks :: "('e \<times> 'c) list"
  created :: nat
  disconnected :: nat

definition initial_registry :: "('e, 'c) registry" where
  "initial_registry = \<lparr> observer = None, callbacks = [], created = 0, disconnected = 0 \<rparr>"

datatype error = TypeError

text \<open>
  \<open>observe\<close>: creates the watcher when there is none, stores the callback under the
  element and has the watcher observe the element. It returns the closure
  \<open>unobserve_fn element\<close> below.
\<close>

definition observe :: "'e \<Rightarrow> 'c \<Rightarrow> ('e, 'c) registry \<Rightarrow> ('e, 'c) registry" where
  "observe element callback r =
     (let r1 = (case observer r of
                  None \<Rightarrow> r\<lparr> observer := Some \<lparr> wid = created r, targets = {} \<rparr>,
                              created := Suc (created r) \<rparr>
                | Some _ \<Rightarrow> r);
          r2 = r1\<lparr> callbacks := AList.update element callback (callbacks r1) \<rparr>
      in r2\<lparr> observer :=
               map_option (\<lambda>w. w\<lparr> targets := insert element (targets w) \<rparr>) (observer r2) \<rparr>)"

text \<open>
  The closure that \<open>observe\<close> returns. It captures only \<open>element\<close>. \<open>observer!.unobserve\<close>
  dereferences the variable \<open>observer\<close>: when that is \<open>null\<close> the call throws a
  \<open>TypeError\<close>, after the deletion from the map has been done.
\<close>

definition unobserve_fn ::
  "'e \<Rightarrow> ('e, 'c) registry \<Rightarrow> error option \<times> ('e, 'c) registry" where
  "unobserve_fn element r =
     (let r1 = r\<lparr> callbacks := AList.delete element (callbacks r) \<rparr>
      in case observer r1 of
           None \<Rightarrow> (Some TypeError, r1)
         | Some w \<Rightarrow>
             (let r2 = r1\<lparr> observer := Some (w\<lparr> targets := targets w - {element} \<rparr>) \<rparr>
              in if length (callbacks r2) = 0
                 then (None, r2\<lparr> observer := None, disconnected := Suc (disconnected r2) \<rparr>)
                 else (None, r2)))"

text \<open>The operations of the registry, and a sequence of them.\<close>

datatype ('e, 'c) reg_op = Observe 'e 'c | Unobserve 'e

fun apply_op :: "('e, 'c) registry \<Rightarrow> ('e, 'c) reg_op \<Rightarrow> ('e, 'c) registry" where
  "apply_op r (Observe element callback) = observe element callback r"
| "apply_op r (Unobserve element) = snd (unobserve_fn element r)"

definition run_ops :: "('e, 'c) reg_op list \<Rightarrow> ('e, 'c) registry \<Rightarrow> ('e, 'c) registry" where
  "run_ops ops r = foldl apply_op r ops"

text \<open>
  The lifecycle invariant: a watcher exists exactly when an element is registered; the
  watcher observes exactly the registered elements; every instance but the current one
  has been disconnected.
\<close>

definition lifecycle_inv :: "('e, 'c) registry \<Rightarrow> bool" where
  "lifecycle_inv r =
     ((observer r = None \<longleftrightarrow> callbacks r = [])
      \<and> (case observer r of
            None \<Rightarrow> created r = disconnected r
          | Some w \<Rightarrow> created r = Suc (disconnected r) \<and> wid w < created r
                      \<and> targets w = fst ` set (callbacks r)))"

section \<open>The prefetch scheduler of a link instance\<close>

text \<open>
  The variables of one \<open>setup\<close> call. \<open>armed\<close> says that \<open>shouldPrefetch\<close> held in a client
  build, so that the two lifecycle hooks were registered. \<open>el\<close> is the element held by the
  template ref (\<open>None\<close> when \<open>el.value\<close> has no \<open>tagName\<close>). \<open>idleId\<close> is \<open>None\<close> while
  \<open>undefined\<close>. \<open>unobserve\<close> is the closure returned by \<open>observe\<close>, given by the element
  it captured, \<open>None\<close> when \<open>null\<close>.
\<close>

record ('e, 'r) link =
  lprops :: "'r props"
  armed :: bool
  el :: "'e option"
  idleId :: "nat option"
  unobserve :: "'e option"
  prefetched :: bool

text \<open>
  Calls that leave the component, in the order they are made, and errors that leave a
  callback. The number is the link instance.
\<close>

datatype effect =
    OnNuxtReady nat
  | RequestIdleCallback nat nat
  | CancelIdleCallback nat nat
  | CallHook nat string
  | PreloadRouteComponents nat
  | Thrown nat error

text \<open>
  The application: the registry (\<open>nuxtApp._observer\<close>), the link instances and the calls
  made so far. The callback that a link registers is given by the link's number.
\<close>

record ('e, 'r) sys =
  registry :: "('e, nat) registry"
  links :: "nat \<Rightarrow> ('e, 'r) link"
  effects :: "effect list"

definition upd_link ::
  "nat \<Rightarrow> (('e, 'r) link \<Rightarrow> ('e, 'r) link) \<Rightarrow> ('e, 'r) sys \<Rightarrow> ('e, 'r) sys" where
  "upd_link i f s = s\<lparr> links := (links s)(i := f (links s i)) \<rparr>"

definition emit :: "effect list \<Rightarrow> ('e, 'r) sys \<Rightarrow> ('e, 'r) sys" where
  "emit es s = s\<lparr> effects := effects s @ es \<rparr>"

text \<open>
  The prefetch part of \<open>setup\<close> for link \<open>i\<close>: the hooks are registered when the build is
  a client build and \<open>shouldPrefetch\<close> holds.
\<close>

definition setup_prefetch ::
  "bool \<Rightarrow> connection option \<Rightarrow> nat \<Rightarrow> 'r props \<Rightarrow> ('e, 'r) sys \<Rightarrow> ('e, 'r) sys" where
  "setup_prefetch server cn i props s =
     s\<lparr> links := (links s)(i :=
          \<lparr> lprops = props,
            armed = (\<not> server \<and> shouldPrefetch props (isSlowConnection server cn)),
            el = None, idleId = None, unobserve = None, prefetched = False \<rparr>) \<rparr>"

text \<open>\<open>onMounted\<close>: hands the ready callback to \<open>onNuxtReady\<close>, which runs it later.\<close>

definition onMounted :: "nat \<Rightarrow> ('e, 'r) sys \<Rightarrow> ('e, 'r) sys" where
  "onMounted i s = (if armed (links s i) then emit [OnNuxtReady i] s else s)"

text \<open>
  The callback given to \<open>onNuxtReady\<close>: \<open>idleId = requestIdleCallback(...)\<close>, where \<open>h\<close> is
  the handle that the call returns.
\<close>

definition ready_callback :: "nat \<Rightarrow> nat \<Rightarrow> ('e, 'r) sys \<Rightarrow> ('e, 'r) sys" where
  "ready_callback i h s =
     (if armed (links s i)
      then upd_link i (\<lambda>l. l\<lparr> idleId := Some h \<rparr>) (emit [RequestIdleCallback i h] s)
      else s)"

text \<open>The callback given to \<open>requestIdleCallback\<close>.\<close>

definition idle_callback :: "nat \<Rightarrow> ('e, 'r) sys \<Rightarrow> ('e, 'r) sys" where
  "idle_callback i s =
     (if armed (links s i) then
        (case el (links s i) of
           None \<Rightarrow> s
         | Some element \<Rightarrow>
             upd_link i (\<lambda>l. l\<lparr> unobserve := Some element \<rparr>)
               (s\<lparr> registry := observe element i (registry s) \<rparr>))
      else s)"

text \<open>
  The first two statements of the visibility callback: \<open>unobserve?.()\<close> and
  \<open>unobserve = null\<close>. When the call throws, the assignment is not reached.
\<close>

definition release_registration :: "nat \<Rightarrow> ('e, 'r) sys \<Rightarrow> error option \<times> ('e, 'r) sys" where
  "release_registration i s =
     (case unobserve (links s i) of
        None \<Rightarrow> (None, s)
      | Some element \<Rightarrow>
          (case unobserve_fn element (registry s) of
             (Some err, r) \<Rightarrow> (Some err, s\<lparr> registry := r \<rparr>)
           | (None, r) \<Rightarrow>
               (None, upd_link i (\<lambda>l. l\<lparr> unobserve := None \<rparr>) (s\<lparr> registry := r \<rparr>))))"

text \<open>
  The rest of the visibility callback up to its \<open>await\<close>: the path, the call of the hook
  \<open>link:prefetch\<close> and, for an internal link, of \<open>preloadRouteComponents\<close>.
\<close>

definition prefetch_work :: "'r env \<Rightarrow> nat \<Rightarrow> ('e, 'r) sys \<Rightarrow> ('e, 'r) sys" where
  "prefetch_work e i s =
     (let p = (case to_value e (lprops (links s i)) of
                 Str t \<Rightarrow> t
               | Obj ob \<Rightarrow> r_fullPath (resolve e (Obj ob)))
      in emit (CallHook i p #
               (if \<not> isExternal e (lprops (links s i)) then [PreloadRouteComponents i] else [])) s)"

text \<open>
  The visibility callback. It is an \<open>async\<close> function: an error thrown inside it rejects
  its promise and does not reach the caller.
\<close>

definition visibility_callback :: "'r env \<Rightarrow> nat \<Rightarrow> ('e, 'r) sys \<Rightarrow> ('e, 'r) sys" where
  "visibility_callback e i s =
     (case release_registration i s of
        (Some err, s') \<Rightarrow> emit [Thrown i err] s'
      | (None, s') \<Rightarrow> prefetch_work e i s')"

text \<open>The continuation after the \<open>await\<close>: \<open>prefetched.value = true\<close>.\<close>

definition settled :: "nat \<Rightarrow> ('e, 'r) sys \<Rightarrow> ('e, 'r) sys" where
  "settled i s = upd_link i (\<lambda>l. l\<lparr> prefetched := True \<rparr>) s"

text \<open>
  \<open>onBeforeUnmount\<close>. \<open>if (idleId)\<close> holds for a handle other than \<open>undefined\<close> and \<open>0\<close>.
\<close>

definition onBeforeUnmount :: "nat \<Rightarrow> ('e, 'r) sys \<Rightarrow> ('e, 'r) sys" where
  "onBeforeUnmount i s =
     (if armed (links s i) then
        (let s1 = (case idleId (links s i) of
                     Some h \<Rightarrow> (if h \<noteq> 0 then emit [CancelIdleCallback i h] s else s)
                   | None \<Rightarrow> s)
         in case release_registration i s1 of
              (Some err, s2) \<Rightarrow> emit [Thrown i err] s2
            | (None, s2) \<Rightarrow> s2)
      else s)"

text \<open>
  The callback of the shared watcher. An entry is visible when \<open>isIntersecting\<close> holds or
  \<open>intersectionRatio\<close> is positive; the callback stored for its target is then called.
\<close>

record 'e entry =
  e_target :: 'e
  isIntersecting :: bool
  intersectionRatio :: real

definition isVisible :: "'e entry \<Rightarrow> bool" where
  "isVisible entry = (isIntersecting entry \<or> intersectionRatio entry > 0)"

fun intersection_callback :: "'r env \<Rightarrow> 'e entry list \<Rightarrow> ('e, 'r) sys \<Rightarrow> ('e, 'r) sys" where
  "intersection_callback e [] s = s"
| "intersection_callback e (entry # entries) s =
     intersection_callback e entries
       (case map_of (callbacks (registry s)) (e_target entry) of
          Some i \<Rightarrow> (if isVisible entry then visibility_callback e i s else s)
        | None \<Rightarrow> s)"

text \<open>
  What can happen to the application after the links are set up: the framework sets or
  clears the template ref of a link, a lifecycle hook or a scheduled callback of a link
  runs, or the watcher delivers entries. \<open>onNuxtReady\<close>, \<open>requestIdleCallback\<close> and
  \<open>cancelIdleCallback\<close> are imported from other modules: the calls to them are logged,
  and when their callbacks run is left to the events. The number \<open>h\<close> of \<open>Ready i h\<close> is
  the handle that \<open>requestIdleCallback\<close> returns. The source never writes the template
  ref itself; it only reads it in the idle callback.
\<close>

datatype 'e event =
    SetEl nat "'e option"
  | Mounted nat
  | Ready nat nat
  | Idle nat
  | Intersect "'e entry list"
  | Settled nat
  | BeforeUnmount nat

fun step :: "'r env \<Rightarrow> ('e, 'r) sys \<Rightarrow> 'e event \<Rightarrow> ('e, 'r) sys" where
  "step e s (SetEl i v) = upd_link i (\<lambda>l. l\<lparr> el := v \<rparr>) s"
| "step e s (Mounted i) = onMounted i s"
| "step e s (Ready i h) = ready_callback i h s"
| "step e s (Idle i) = idle_callback i s"
| "step e s (Intersect entries) = intersection_callback e entries s"
| "step e s (Settled i) = settled i s"
| "step e s (BeforeUnmount i) = onBeforeUnmount i s"

definition run :: "'r env \<Rightarrow> 'e event list \<Rightarrow> ('e, 'r) sys \<Rightarrow> ('e, 'r) sys" where
  "run e evs s = foldl (step e) s evs"

text \<open>The number of calls of the prefetch hook that link \<open>i\<close> has made.\<close>

definition hook_calls :: "nat \<Rightarrow> effect list \<Rightarrow> nat" where
  "hook_calls i es = length (filter (\<lambda>x. case x of CallHook j _ \<Rightarrow> j = i | _ \<Rightarrow> False) es)"

text \<open>The elements under which link \<open>i\<close> is registered with the watcher.\<close>

definition registered :: "nat \<Rightarrow> ('e, 'r) sys \<Rightarrow> bool" where
  "registered i s = (i \<in> snd ` set (callbacks (registry s)))"

text \<open>
  The state in which link \<open>i\<close> is registered only under the element that its stored
  \<open>unobserve\<close> closure removes.
\<close>

definition reg_matches :: "nat \<Rightarrow> ('e, 'r) sys \<Rightarrow> bool" where
  "reg_matches i s =
     list_all (\<lambda>(t, k). k = i \<longrightarrow> unobserve (links s i) = Some t) (callbacks (registry s))"

text \<open>
  The hook calls that link \<open>i\<close> has made, plus one while its callback is still in the
  registry.
\<close>

definition pending :: "nat \<Rightarrow> ('e, 'r) sys \<Rightarrow> nat" where
  "pending i s = hook_calls i (effects s) + (if registered i s then 1 else 0)"

text \<open>
  Link \<open>i\<close> is not registered and its idle callback would not register it: its hooks were
  never installed, or its template ref holds no element.
\<close>

definition dormant :: "nat \<Rightarrow> ('e, 'r) sys \<Rightarrow> bool" where
  "dormant i s = (\<not> registered i s \<and> (\<not> armed (links s i) \<or> el (links s i) = None))"

section \<open>The specification's wording of two rules\<close>

text \<open>
  The classification rule as the specification lists it, first match first: the external
  flag; a target attribute other than \<open>_self\<close>; a route object; the empty string; a
  string with a scheme, protocol-relative included; anything else.
\<close>

datatype link_kind = External | Internal

definition classify_spec :: "'r env \<Rightarrow> 'r props \<Rightarrow> link_kind" where
  "classify_spec e props =
     (if external props = Some True then External
      else if (case target props of None \<Rightarrow> False | Some t \<Rightarrow> t \<noteq> [] \<and> t \<noteq> ''_self'')
      then External
      else (case to_value e props of
              Obj _ \<Rightarrow> Internal
            | Str s \<Rightarrow> (if s = [] then External
                        else if hasProtocol (lib e) s True then External
                        else Internal)))"

text \<open>
  The \<open>rel\<close> rule as the specification words it: the first candidate that is a non-empty
  string, an empty string sending the search on to the next candidate.
\<close>

fun first_usable :: "string nullable list \<Rightarrow> string option" where
  "first_usable [] = None"
| "first_usable (Val s # xs) = (if s = [] then first_usable xs else Some s)"
| "first_usable (_ # xs) = first_usable xs"

definition rel_spec :: "options \<Rightarrow> 'r props \<Rightarrow> string option \<Rightarrow> string option" where
  "rel_spec os props h =
     (if noRel props = Some True then None
      else first_usable [rel props, externalRelAttribute os,
                         (if h \<noteq> None then Val ''noopener noreferrer'' else Undefined)])"

section \<open>Initial state and sample values\<close>

text \<open>The props of a link on which no prop is set, and the application before any link.\<close>

definition default_props :: "'r props" where
  "default_props =
     \<lparr> to = None, href = None, external = None, replace = None, custom = None, target = None,
       rel = Undefined, noRel = None, prefetch = None, noPrefetch = None,
       p_activeClass = None, p_exactActiveClass = None, p_prefetchedClass = None,
       ariaCurrentValue = None \<rparr>"

definition initial_sys :: "('e, 'r) sys" where
  "initial_sys =
     \<lparr> registry = initial_registry,
       links = (\<lambda>_. \<lparr> lprops = default_props, armed = False, el = None, idleId = None,
                       unobserve = None, prefetched = False \<rparr>),
       effects = [] \<rparr>"

text \<open>
  A small URL library, options, router and environment for the examples. The theorems
  below hold for every library and router; only the examples use these.
\<close>

definition sample_ufo :: ufo where
  "sample_ufo =
     \<lparr> hasProtocol = (\<lambda>s acceptRelative. contains ''://'' s \<or> startsWith s ''mailto:''
                         \<or> startsWith s ''tel:'' \<or> (acceptRelative \<and> startsWith s ''//'')),
       joinURL = (\<lambda>b p. b @ p),
       withTrailingSlash = (\<lambda>s _. if s \<noteq> [] \<and> last s = CHR ''/'' then s else s @ ''/''),
       withoutTrailingSlash =
         (\<lambda>s _. if 1 < length s \<and> last s = CHR ''/'' then butlast s else s) \<rparr>"

definition sample_options :: options where
  "sample_options =
     \<lparr> externalRelAttribute = Undefined, activeClass = None, exactActiveClass = None,
       prefetchedClass = None, trailingSlash = None \<rparr>"

definition sample_resolve :: "unit location \<Rightarrow> resolved" where
  "sample_resolve l =
     (let p = (case l of Str s \<Rightarrow> s
               | Obj ob \<Rightarrow> (case path ob of Some p \<Rightarrow> p | None \<Rightarrow> ''/''))
      in \<lparr> r_path = p, r_fullPath = p, r_href = Some p \<rparr>)"

definition sample_env :: "unit env" where
  "sample_env =
     \<lparr> lib = sample_ufo, opts = sample_options, resolve = sample_resolve, baseURL = ''/'' \<rparr>"

text \<open>
  One armed link to \<open>/about\<close>; the same link once its element \<open>5\<close> is observed; a
  visible entry for that element; a connection with \<open>saveData\<close> set.
\<close>

definition sample_link :: "(nat, unit) sys" where
  "sample_link =
     setup_prefetch False None 0 (default_props\<lparr> to := Some (Str ''/about'') \<rparr>) initial_sys"

definition sample_waiting :: "(nat, unit) sys" where
  "sample_waiting = run sample_env [SetEl 0 (Some 5), Mounted 0, Ready 0 1, Idle 0] sample_link"

definition sample_entry :: "nat entry" where
  "sample_entry = \<lparr> e_target = 5, isIntersecting = True, intersectionRatio = 1 \<rparr>"

definition slow_connection :: connection where
  "slow_connection = \<lparr> saveData = True, effectiveType = ''4g'' \<rparr>"

lemmas sample_defs = default_props_def initial_sys_def sample_ufo_def sample_options_def
  sample_resolve_def sample_env_def sample_link_def sample_entry_def initial_registry_def

lemmas handler_defs = run_def setup_prefetch_def onMounted_def ready_callback_def
  idle_callback_def release_registration_def prefetch_work_def visibility_callback_def
  settled_def onBeforeUnmount_def upd_link_def emit_def observe_def unobserve_fn_def
  isVisible_def shouldPrefetch_def isSlowConnection_def is_true_def

lemmas url_defs = to_value_def loc_or_def resolveTrailingSlashBehavior_def isExternal_def
  isProtocolURL_def nonempty_def startsWith_def external_href_def

section \<open>Lemmas on strings and trailing slashes\<close>

lemma split_on_absent: "c \<notin> set xs \<Longrightarrow> split_on c xs = [xs]"
  by (induction xs) auto

lemma split_on_first: "c \<notin> set l \<Longrightarrow> split_on c (l @ c # f) = l # split_on c f"
  by (induction l) (auto split: list.splits)

text \<open>A string with another protocol than http is returned as it is.\<close>

lemma applyTrailingSlashBehavior_other_protocol:
  "hasProtocol u t False \<Longrightarrow> \<not> startsWith t ''http'' \<Longrightarrow> applyTrailingSlashBehavior u t ts = t"
  by (simp add: applyTrailingSlashBehavior_def)

text \<open>
  With exactly one \<open>#\<close> and a non-empty fragment, the part before the \<open>#\<close> is normalised
  and the fragment appended again.
\<close>

lemma applyTrailingSlashBehavior_one_fragment:
  assumes "\<not> (hasProtocol u (l @ ''#'' @ f) False \<and> \<not> startsWith (l @ ''#'' @ f) ''http'')"
    and "CHR ''#'' \<notin> set l" and "CHR ''#'' \<notin> set f" and "f \<noteq> []"
  shows "applyTrailingSlashBehavior u (l @ ''#'' @ f) ts = normalizeFn u ts l True @ ''#'' @ f"
  using assms by (auto simp add: applyTrailingSlashBehavior_def split_on_first split_on_absent)

text \<open>Without a \<open>#\<close> the whole string is normalised.\<close>

lemma applyTrailingSlashBehavior_no_fragment:
  assumes "\<not> (hasProtocol u t False \<and> \<not> startsWith t ''http'')" and "CHR ''#'' \<notin> set t"
  shows "applyTrailingSlashBehavior u t ts = normalizeFn u ts t True"
  using assms by (auto simp add: applyTrailingSlashBehavior_def split_on_absent)

section \<open>Lemmas on the shared observer\<close>

lemma keys_update: "fst ` set (AList.update k v al) = insert k (fst ` set al)"
  by (induction al) auto

lemma keys_delete: "fst ` set (AList.delete k al) = fst ` set al - {k}"
  by (induction al) auto

lemma set_update_subset:
  "(a, b) \<in> set (AList.update k v al) \<Longrightarrow> (a, b) = (k, v) \<or> (a, b) \<in> set al"
  by (induction al) (auto split: if_splits)

lemma set_delete_iff: "(a, b) \<in> set (AList.delete k al) \<longleftrightarrow> a \<noteq> k \<and> (a, b) \<in> set al"
  by (induction al) auto

lemma inv_initial: "lifecycle_inv initial_registry"
  by (simp add: lifecycle_inv_def initial_registry_def)

lemma inv_observe: "lifecycle_inv r \<Longrightarrow> lifecycle_inv (observe x c r)"
  by (auto simp: lifecycle_inv_def observe_def Let_def keys_update split: option.splits)

lemma inv_unobserve: "lifecycle_inv r \<Longrightarrow> lifecycle_inv (snd (unobserve_fn x r))"
  by (auto simp: lifecycle_inv_def unobserve_fn_def Let_def keys_delete split: option.splits)

lemma inv_run_ops: "lifecycle_inv r \<Longrightarrow> lifecycle_inv (run_ops ops r)"
  unfolding run_ops_def
proof (induction ops arbitrary: r)
  case Nil
  then show ?case by simp
next
  case (Cons op ops)
  have "lifecycle_inv (apply_op r op)"
    using Cons.prems by (cases op) (simp_all add: inv_observe inv_unobserve)
  then show ?case using Cons.IH by simp
qed

lemma observe_fresh:
  "callbacks r = [] \<Longrightarrow> lifecycle_inv r \<Longrightarrow>
     observe x c r =
       \<lparr> observer = Some \<lparr> wid = created r, targets = {x} \<rparr>, callbacks = [(x, c)],
         created = Suc (created r), disconnected = disconnected r \<rparr>"
  by (auto simp: lifecycle_inv_def observe_def Let_def)

lemma unobserve_dispose:
  "lifecycle_inv r \<Longrightarrow> callbacks r \<noteq> [] \<Longrightarrow> callbacks (snd (unobserve_fn x r)) = [] \<Longrightarrow>
     fst (unobserve_fn x r) = None \<and> observer (snd (unobserve_fn x r)) = None
     \<and> disconnected (snd (unobserve_fn x r)) = Suc (disconnected r)
     \<and> created (snd (unobserve_fn x r)) = created r"
  by (auto simp: lifecycle_inv_def unobserve_fn_def Let_def split: option.splits if_splits)

lemma unobserve_keep:
  "lifecycle_inv r \<Longrightarrow> callbacks (snd (unobserve_fn x r)) \<noteq> [] \<Longrightarrow>
     fst (unobserve_fn x r) = None
     \<and> map_option wid (observer (snd (unobserve_fn x r))) = map_option wid (observer r)
     \<and> disconnected (snd (unobserve_fn x r)) = disconnected r
     \<and> created (snd (unobserve_fn x r)) = created r"
  by (auto simp: lifecycle_inv_def unobserve_fn_def Let_def split: option.splits if_splits)

lemma callbacks_observe: "callbacks (observe t c r) = AList.update t c (callbacks r)"
  by (simp add: observe_def Let_def split: option.splits)

lemma callbacks_unobserve_fn:
  "unobserve_fn t r = (x, r') \<Longrightarrow> callbacks r' = AList.delete t (callbacks r)"
  by (auto simp add: unobserve_fn_def Let_def split: option.splits if_splits)

section \<open>Lemmas on the scheduler\<close>

lemma reg_matches_iff:
  "reg_matches i s = (\<forall>t. (t, i) \<in> set (callbacks (registry s)) \<longrightarrow> unobserve (links s i) = Some t)"
  by (auto simp: reg_matches_def list_all_iff)

lemma hook_calls_append: "hook_calls i (xs @ ys) = hook_calls i xs + hook_calls i ys"
  by (simp add: hook_calls_def)

lemma hook_calls_simps [simp]:
  "hook_calls i [] = 0"
  "hook_calls i (CallHook j p # es) = (if j = i then Suc (hook_calls i es) else hook_calls i es)"
  "hook_calls i (OnNuxtReady j # es) = hook_calls i es"
  "hook_calls i (RequestIdleCallback j h # es) = hook_calls i es"
  "hook_calls i (CancelIdleCallback j h # es) = hook_calls i es"
  "hook_calls i (PreloadRouteComponents j # es) = hook_calls i es"
  "hook_calls i (Thrown j err # es) = hook_calls i es"
  by (simp_all add: hook_calls_def)

text \<open>What \<open>release_registration\<close> changes.\<close>

lemma release_effects: "effects (snd (release_registration k s)) = effects s"
  by (simp add: release_registration_def upd_link_def split: option.splits prod.splits)

lemma release_callbacks:
  "callbacks (registry (snd (release_registration k s))) =
     (case unobserve (links s k) of None \<Rightarrow> callbacks (registry s)
      | Some t \<Rightarrow> AList.delete t (callbacks (registry s)))"
  by (auto simp add: release_registration_def upd_link_def callbacks_unobserve_fn split: option.splits prod.splits)

lemma release_links_other: "k \<noteq> i \<Longrightarrow> links (snd (release_registration k s)) i = links s i"
  by (simp add: release_registration_def upd_link_def split: option.splits prod.splits)

lemma release_links_self:
  "links (snd (release_registration i s)) i =
     (if fst (release_registration i s) = None then (links s i)\<lparr> unobserve := None \<rparr> else links s i)"
  by (auto simp add: release_registration_def upd_link_def split: option.splits prod.splits)

lemma release_subset: "set (callbacks (registry (snd (release_registration k s)))) \<subseteq> set (callbacks (registry s))"
  by (auto simp: release_callbacks set_delete_iff split: option.splits)

lemma release_self_unregistered:
  "reg_matches i s \<Longrightarrow> \<not> registered i (snd (release_registration i s))"
  by (auto simp: reg_matches_iff registered_def release_callbacks set_delete_iff split: option.splits)

lemma release_reg_matches:
  "reg_matches i s \<Longrightarrow> reg_matches i (snd (release_registration k s))"
proof (cases "k = i")
  case True
  assume "reg_matches i s"
  then have "\<not> registered i (snd (release_registration i s))" by (rule release_self_unregistered)
  then show ?thesis using True by (force simp: reg_matches_iff registered_def)
next
  case False
  assume "reg_matches i s"
  then show ?thesis using False release_subset [of k s]
    by (auto simp: reg_matches_iff release_links_other)
qed

lemma release_registered_mono: "registered i (snd (release_registration k s)) \<Longrightarrow> registered i s"
  using release_subset [of k s] by (auto simp: registered_def)


lemma reg_matches_cong: "registry s' = registry s \<Longrightarrow> links s' i = links s i \<Longrightarrow> reg_matches i s' = reg_matches i s"
  by (simp add: reg_matches_iff)

lemma emit_simps [simp]:
  "registry (emit es s) = registry s"
  "links (emit es s) = links s"
  "effects (emit es s) = effects s @ es"
  by (simp_all add: emit_def)

lemma release_emit: "release_registration k (emit es s) = (fst (release_registration k s), emit es (snd (release_registration k s)))"
  by (simp add: release_registration_def emit_def upd_link_def split: option.splits prod.splits)

lemma vis_registry: "registry (visibility_callback e k s) = registry (snd (release_registration k s))"
  by (simp add: visibility_callback_def prefetch_work_def Let_def split: prod.splits option.splits)

lemma vis_links: "links (visibility_callback e k s) = links (snd (release_registration k s))"
  by (simp add: visibility_callback_def prefetch_work_def Let_def split: prod.splits option.splits)

lemma vis_hooks: "hook_calls i (effects (visibility_callback e k s)) =
   hook_calls i (effects s) + (if k = i \<and> fst (release_registration k s) = None then 1 else 0)"
  using release_effects [of k s]
  by (auto simp add: visibility_callback_def prefetch_work_def Let_def hook_calls_append split: prod.splits option.splits)

lemma vis_reg_matches: "reg_matches i s \<Longrightarrow> reg_matches i (visibility_callback e k s)"
  using reg_matches_cong [of "visibility_callback e k s" "snd (release_registration k s)" i]
  by (simp add: vis_registry vis_links release_reg_matches)

lemma vis_pending:
  assumes "reg_matches i s" and "k = i \<longrightarrow> registered i s"
  shows "pending i (visibility_callback e k s) \<le> pending i s"
proof (cases "k = i")
  case True
  then have "\<not> registered i (visibility_callback e k s)"
    using release_self_unregistered [OF assms(1)] by (simp add: registered_def vis_registry)
  then show ?thesis using assms(2) True by (simp add: pending_def vis_hooks)
next
  case False
  have "registered i (visibility_callback e k s) \<Longrightarrow> registered i s"
    using release_registered_mono [of i k s] by (simp add: registered_def vis_registry)
  then show ?thesis using False by (auto simp add: pending_def vis_hooks)
qed

lemma map_of_registered: "map_of (callbacks (registry s)) t = Some k \<Longrightarrow> registered k s"
  by (force simp: registered_def dest: map_of_SomeD)

lemma intersect_inv:
  "reg_matches i s \<Longrightarrow>
     reg_matches i (intersection_callback e entries s)
     \<and> pending i (intersection_callback e entries s) \<le> pending i s"
proof (induction entries arbitrary: s)
  case Nil
  then show ?case by simp
next
  case (Cons entry entries)
  let ?s1 = "case map_of (callbacks (registry s)) (e_target entry) of
          Some k \<Rightarrow> (if isVisible entry then visibility_callback e k s else s)
        | None \<Rightarrow> s"
  have a: "reg_matches i ?s1"
    using Cons.prems by (simp add: vis_reg_matches split: option.splits)
  have b: "pending i ?s1 \<le> pending i s"
  proof (cases "map_of (callbacks (registry s)) (e_target entry)")
    case None
    then show ?thesis by simp
  next
    case (Some k)
    then have "k = i \<longrightarrow> registered i s"
      using map_of_registered [of s "e_target entry" k] by auto
    then show ?thesis using Some vis_pending [OF Cons.prems, of k e] by simp
  qed
  from Cons.IH [OF a] b show ?case by simp
qed

lemma unmount_registry: "registry (onBeforeUnmount k s) = (if armed (links s k) then registry (snd (release_registration k s)) else registry s)"
  by (simp add: onBeforeUnmount_def release_emit Let_def split: prod.splits option.splits)

lemma unmount_links: "links (onBeforeUnmount k s) = (if armed (links s k) then links (snd (release_registration k s)) else links s)"
  by (simp add: onBeforeUnmount_def release_emit Let_def split: prod.splits option.splits)

lemma unmount_hooks: "hook_calls i (effects (onBeforeUnmount k s)) = hook_calls i (effects s)"
  using release_effects [of k s]
  by (auto simp add: onBeforeUnmount_def release_emit Let_def hook_calls_append split: prod.splits option.splits)

lemma unmount_reg_matches: "reg_matches i s \<Longrightarrow> reg_matches i (onBeforeUnmount k s)"
proof (cases "armed (links s k)")
  case True
  assume "reg_matches i s"
  then show ?thesis
    using True reg_matches_cong [of "onBeforeUnmount k s" "snd (release_registration k s)" i]
    by (simp add: unmount_registry unmount_links release_reg_matches)
next
  case False
  assume "reg_matches i s"
  then show ?thesis using False by (simp add: onBeforeUnmount_def)
qed

lemma unmount_pending: "pending i (onBeforeUnmount k s) \<le> pending i s"
  using release_registered_mono [of i k s]
  by (auto simp add: pending_def unmount_hooks registered_def unmount_registry)

lemma idle_other:
  assumes "k \<noteq> i" "reg_matches i s"
  shows "reg_matches i (idle_callback k s) \<and> pending i (idle_callback k s) \<le> pending i s"
proof -
  have l: "links (idle_callback k s) i = links s i"
    using assms(1) by (simp add: idle_callback_def upd_link_def split: option.splits)
  have e: "effects (idle_callback k s) = effects s"
    by (simp add: idle_callback_def upd_link_def split: option.splits)
  have c: "(t, i) \<in> set (callbacks (registry (idle_callback k s))) \<Longrightarrow> (t, i) \<in> set (callbacks (registry s))" for t
    using assms(1) by (auto simp add: idle_callback_def upd_link_def callbacks_observe dest: set_update_subset split: option.splits if_splits)
  have r: "registered i (idle_callback k s) \<Longrightarrow> registered i s"
    using c by (force simp: registered_def)
  have m: "reg_matches i (idle_callback k s)"
    unfolding reg_matches_iff
  proof (intro allI impI)
    fix t assume "(t, i) \<in> set (callbacks (registry (idle_callback k s)))"
    then have "(t, i) \<in> set (callbacks (registry s))" by (rule c)
    then have "unobserve (links s i) = Some t" using assms(2) by (simp add: reg_matches_iff)
    then show "unobserve (links (idle_callback k s) i) = Some t" by (simp add: l)
  qed
  have "pending i (idle_callback k s) \<le> pending i s"
    using r by (auto simp: pending_def e)
  then show ?thesis using m by simp
qed

lemma step_inv:
  assumes "reg_matches i s" "ev \<noteq> Idle i"
  shows "reg_matches i (step e s ev) \<and> pending i (step e s ev) \<le> pending i s"
proof (cases ev)
  case (SetEl k v)
  then show ?thesis using assms(1) by (auto simp add: reg_matches_iff pending_def registered_def upd_link_def)
next
  case (Mounted k)
  then show ?thesis using assms(1) by (auto simp add: reg_matches_iff pending_def registered_def onMounted_def hook_calls_append)
next
  case (Ready k h)
  then show ?thesis using assms(1) by (auto simp add: reg_matches_iff pending_def registered_def ready_callback_def upd_link_def hook_calls_append)
next
  case (Idle k)
  then show ?thesis using assms idle_other [of k i s] by simp
next
  case (Intersect entries)
  then show ?thesis using assms(1) intersect_inv [of i s e entries] by simp
next
  case (Settled k)
  then show ?thesis using assms(1) by (auto simp add: reg_matches_iff pending_def registered_def settled_def upd_link_def)
next
  case (BeforeUnmount k)
  then show ?thesis using assms(1) by (simp add: unmount_reg_matches unmount_pending)
qed

lemma run_inv:
  "reg_matches i s \<Longrightarrow> Idle i \<notin> set evs \<Longrightarrow>
     reg_matches i (run e evs s) \<and> pending i (run e evs s) \<le> pending i s"
  unfolding run_def
proof (induction evs arbitrary: s)
  case Nil
  then show ?case by simp
next
  case (Cons ev evs)
  have a: "reg_matches i (step e s ev) \<and> pending i (step e s ev) \<le> pending i s"
    using Cons.prems step_inv [of i s ev e] by auto
  have "reg_matches i (foldl (step e) (step e s ev) evs)
        \<and> pending i (foldl (step e) (step e s ev) evs) \<le> pending i (step e s ev)"
    using Cons.IH [of "step e s ev"] a Cons.prems(2) by simp
  then show ?case using a by simp
qed


lemma unregistered_matches: "\<not> registered i s \<Longrightarrow> reg_matches i s"
  by (force simp: reg_matches_iff registered_def)

text \<open>Calls are only ever added to the log.\<close>

lemma vis_hooks_mono: "hook_calls i (effects s) \<le> hook_calls i (effects (visibility_callback e k s))"
  by (simp add: vis_hooks)

lemma intersect_hooks_mono: "hook_calls i (effects s) \<le> hook_calls i (effects (intersection_callback e entries s))"
proof (induction entries arbitrary: s)
  case Nil
  then show ?case by simp
next
  case (Cons entry entries)
  let ?s1 = "case map_of (callbacks (registry s)) (e_target entry) of
          Some k \<Rightarrow> (if isVisible entry then visibility_callback e k s else s)
        | None \<Rightarrow> s"
  have "hook_calls i (effects s) \<le> hook_calls i (effects ?s1)"
    by (simp add: vis_hooks_mono split: option.splits)
  then show ?case using Cons.IH [of ?s1] by simp
qed

lemma step_hooks_mono: "hook_calls i (effects s) \<le> hook_calls i (effects (step e s ev))"
  by (cases ev)
     (simp_all add: upd_link_def onMounted_def ready_callback_def idle_callback_def settled_def
        hook_calls_append unmount_hooks intersect_hooks_mono split: option.splits)

text \<open>No callback writes \<open>armed\<close> or \<open>el\<close>.\<close>

lemma release_static:
  "armed (links (snd (release_registration k s)) i) = armed (links s i)
   \<and> el (links (snd (release_registration k s)) i) = el (links s i)"
  by (simp add: release_registration_def upd_link_def split: option.splits prod.splits)

lemma vis_static:
  "armed (links (visibility_callback e k s) i) = armed (links s i)
   \<and> el (links (visibility_callback e k s) i) = el (links s i)"
  by (simp add: vis_links release_static)

lemma intersect_static:
  "armed (links (intersection_callback e entries s) i) = armed (links s i)
   \<and> el (links (intersection_callback e entries s) i) = el (links s i)"
proof (induction entries arbitrary: s)
  case Nil
  then show ?case by simp
next
  case (Cons entry entries)
  show ?case by (simp add: Cons.IH vis_static split: option.splits)
qed

lemma step_static:
  "armed (links (step e s ev) i) = armed (links s i)
   \<and> ((\<forall>v. ev \<noteq> SetEl i v) \<longrightarrow> el (links (step e s ev) i) = el (links s i))"
  by (cases ev)
     (simp_all add: upd_link_def onMounted_def ready_callback_def idle_callback_def settled_def
        unmount_links release_static intersect_static split: option.splits)

lemma step_dormant:
  assumes "dormant i s" and "armed (links s i) \<longrightarrow> (\<forall>x. ev \<noteq> SetEl i (Some x))"
  shows "dormant i (step e s ev) \<and> hook_calls i (effects (step e s ev)) = hook_calls i (effects s)"
proof (cases "ev = Idle i")
  case True
  have "idle_callback i s = s" using assms(1) by (auto simp: dormant_def idle_callback_def)
  then show ?thesis using True assms(1) by simp
next
  case False
  have m: "reg_matches i s" using assms(1) by (simp add: dormant_def unregistered_matches)
  have p: "pending i (step e s ev) \<le> pending i s" using step_inv [OF m False] by simp
  have h: "hook_calls i (effects s) \<le> hook_calls i (effects (step e s ev))" by (rule step_hooks_mono)
  have n: "\<not> registered i s" using assms(1) by (simp add: dormant_def)
  have r: "\<not> registered i (step e s ev)" using p h n by (auto simp: pending_def split: if_splits)
  have q: "hook_calls i (effects (step e s ev)) = hook_calls i (effects s)"
    using p h n by (auto simp: pending_def split: if_splits)
  have a: "armed (links (step e s ev) i) = armed (links s i)" using step_static [of e s ev i] by simp
  have "\<not> armed (links s i) \<or> el (links (step e s ev) i) = None"
  proof (cases "armed (links s i)")
    case True
    then have e0: "el (links s i) = None" using assms(1) by (simp add: dormant_def)
    show ?thesis
    proof (cases "\<exists>v. ev = SetEl i v")
      case True
      then obtain v where v: "ev = SetEl i v" by blast
      then have "v = None" using assms(2) \<open>armed (links s i)\<close> by (cases v) auto
      then show ?thesis using v by (simp add: upd_link_def)
    next
      case False
      then show ?thesis using step_static [of e s ev i] e0 by simp
    qed
  next
    case False
    then show ?thesis by simp
  qed
  then show ?thesis using r q a by (simp add: dormant_def)
qed

lemma run_dormant:
  "dormant i s \<Longrightarrow> armed (links s i) \<longrightarrow> (\<forall>x. SetEl i (Some x) \<notin> set evs) \<Longrightarrow>
     dormant i (run e evs s) \<and> hook_calls i (effects (run e evs s)) = hook_calls i (effects s)"
  unfolding run_def
proof (induction evs arbitrary: s)
  case Nil
  then show ?case by simp
next
  case (Cons ev evs)
  have a: "dormant i (step e s ev) \<and> hook_calls i (effects (step e s ev)) = hook_calls i (effects s)"
    using Cons.prems step_dormant [of i s ev e] by auto
  have b: "armed (links (step e s ev) i) = armed (links s i)" using step_static [of e s ev i] by simp
  have "dormant i (foldl (step e) (step e s ev) evs)
        \<and> hook_calls i (effects (foldl (step e) (step e s ev) evs)) = hook_calls i (effects (step e s ev))"
    using Cons.IH [of "step e s ev"] a b Cons.prems(2) by simp
  then show ?case using a by simp
qed

lemma release_lifecycle:
  "lifecycle_inv (registry s) \<Longrightarrow> lifecycle_inv (registry (snd (release_registration k s)))"
proof -
  assume a: "lifecycle_inv (registry s)"
  have "registry (snd (release_registration k s)) =
          (case unobserve (links s k) of None \<Rightarrow> registry s
           | Some t \<Rightarrow> snd (unobserve_fn t (registry s)))"
    by (simp add: release_registration_def upd_link_def split: option.splits prod.splits)
  then show ?thesis using a by (simp add: inv_unobserve split: option.splits)
qed

lemma intersect_lifecycle:
  "lifecycle_inv (registry s) \<Longrightarrow> lifecycle_inv (registry (intersection_callback e entries s))"
proof (induction entries arbitrary: s)
  case Nil
  then show ?case by simp
next
  case (Cons entry entries)
  let ?s1 = "case map_of (callbacks (registry s)) (e_target entry) of
          Some k \<Rightarrow> (if isVisible entry then visibility_callback e k s else s)
        | None \<Rightarrow> s"
  have "lifecycle_inv (registry ?s1)"
    using Cons.prems by (simp add: vis_registry release_lifecycle split: option.splits)
  then show ?case using Cons.IH [of ?s1] by simp
qed

lemma step_lifecycle:
  "lifecycle_inv (registry s) \<Longrightarrow> lifecycle_inv (registry (step e s ev))"
  by (cases ev)
     (simp_all add: upd_link_def onMounted_def ready_callback_def idle_callback_def settled_def
        unmount_registry release_lifecycle intersect_lifecycle inv_observe split: option.splits)

text \<open>Every state that a run reaches from a well-formed registry has a well-formed one.\<close>

lemma run_lifecycle:
  "lifecycle_inv (registry s) \<Longrightarrow> lifecycle_inv (registry (run e evs s))"
  unfolding run_def by (induction evs arbitrary: s) (simp_all add: step_lifecycle)

lemma run_hooks_mono: "hook_calls i (effects s) \<le> hook_calls i (effects (run e evs s))"
  unfolding run_def
proof (induction evs arbitrary: s)
  case Nil
  then show ?case by simp
next
  case (Cons ev evs)
  have "hook_calls i (effects s) \<le> hook_calls i (effects (step e s ev))" by (rule step_hooks_mono)
  then show ?case using Cons.IH [of "step e s ev"] by simp
qed

lemma idle_self:
  assumes "\<not> registered i s"
  shows "reg_matches i (idle_callback i s) \<and> effects (idle_callback i s) = effects s"
proof -
  have e: "effects (idle_callback i s) = effects s"
    by (simp add: idle_callback_def upd_link_def split: option.splits)
  have "unobserve (links (idle_callback i s) i) = Some t"
    if "(t, i) \<in> set (callbacks (registry (idle_callback i s)))" for t
  proof (cases "armed (links s i) \<and> el (links s i) \<noteq> None")
    case True
    then obtain x where x: "el (links s i) = Some x" by auto
    have "(t, i) \<in> set (AList.update x i (callbacks (registry s)))"
      using that True x by (simp add: idle_callback_def upd_link_def callbacks_observe)
    then have "t = x" using assms by (force simp: registered_def dest: set_update_subset)
    then show ?thesis using True x by (simp add: idle_callback_def upd_link_def)
  next
    case False
    then have "idle_callback i s = s" by (auto simp: idle_callback_def)
    then show ?thesis using that assms by (force simp: registered_def)
  qed
  then show ?thesis using e by (simp add: reg_matches_iff)
qed

lemma once_per_idle_callback:
  assumes "\<not> registered i s" and "count_list evs (Idle i) \<le> 1"
  shows "hook_calls i (effects (run e evs s)) \<le> hook_calls i (effects s) + 1"
proof (cases "Idle i \<in> set evs")
  case False
  have "pending i (run e evs s) \<le> pending i s"
    using run_inv [OF unregistered_matches [OF assms(1)] False] by simp
  then show ?thesis using assms(1) by (simp add: pending_def split: if_splits)
next
  case True
  then obtain pre post where sp: "evs = pre @ Idle i # post" and np: "Idle i \<notin> set pre"
    by (meson split_list_first)
  have "count_list post (Idle i) = 0" using assms(2) sp by simp
  then have nq: "Idle i \<notin> set post" by (simp add: count_list_0_iff)
  let ?s1 = "run e pre s"
  let ?s2 = "idle_callback i ?s1"
  have p1: "pending i ?s1 \<le> pending i s"
    using run_inv [OF unregistered_matches [OF assms(1)] np] by simp
  have m1: "hook_calls i (effects s) \<le> hook_calls i (effects ?s1)" by (rule run_hooks_mono)
  have u1: "\<not> registered i ?s1" and h1: "hook_calls i (effects ?s1) = hook_calls i (effects s)"
    using p1 m1 assms(1) by (auto simp: pending_def split: if_splits)
  have m2: "reg_matches i ?s2" and h2: "effects ?s2 = effects ?s1"
    using idle_self [OF u1] by simp_all
  have "pending i (run e post ?s2) \<le> pending i ?s2" using run_inv [OF m2 nq] by simp
  then have "hook_calls i (effects (run e post ?s2)) \<le> hook_calls i (effects ?s2) + 1"
    by (simp add: pending_def split: if_splits)
  moreover have "run e evs s = run e post ?s2" by (simp add: sp run_def)
  ultimately show ?thesis using h1 h2 by simp
qed

text \<open>
  A link that is not registered stays so, and calls no hook, until its idle callback runs;
  after at most one run of that callback it is registered only under the element of its
  stored closure.
\<close>

lemma run_unregistered:
  assumes "\<not> registered i s" and "Idle i \<notin> set evs"
  shows "\<not> registered i (run e evs s)
         \<and> hook_calls i (effects (run e evs s)) = hook_calls i (effects s)"
proof -
  have p: "pending i (run e evs s) \<le> pending i s"
    using run_inv [OF unregistered_matches [OF assms(1)] assms(2)] by simp
  have m: "hook_calls i (effects s) \<le> hook_calls i (effects (run e evs s))"
    by (rule run_hooks_mono)
  show ?thesis using p m assms(1) by (auto simp: pending_def split: if_splits)
qed

lemma run_reg_matches:
  assumes "\<not> registered i s" and "count_list evs (Idle i) \<le> 1"
  shows "reg_matches i (run e evs s)"
proof (cases "Idle i \<in> set evs")
  case False
  then show ?thesis using run_inv [OF unregistered_matches [OF assms(1)]] by simp
next
  case True
  then obtain pre post where sp: "evs = pre @ Idle i # post" and np: "Idle i \<notin> set pre"
    by (meson split_list_first)
  have "count_list post (Idle i) = 0" using assms(2) sp by simp
  then have nq: "Idle i \<notin> set post" by (simp add: count_list_0_iff)
  have "\<not> registered i (run e pre s)" using run_unregistered [OF assms(1) np] by simp
  then have "reg_matches i (idle_callback i (run e pre s))" using idle_self by blast
  then have "reg_matches i (run e post (idle_callback i (run e pre s)))"
    using run_inv [OF _ nq] by blast
  moreover have "run e evs s = run e post (idle_callback i (run e pre s))"
    by (simp add: sp run_def)
  ultimately show ?thesis by simp
qed

lemma run_armed: "armed (links (run e evs s) i) = armed (links s i)"
  unfolding run_def
proof (induction evs arbitrary: s)
  case Nil
  show ?case by simp
next
  case (Cons ev evs)
  have "armed (links (step e s ev) i) = armed (links s i)"
    using step_static [of e s ev i] by simp
  then show ?case using Cons.IH [of "step e s ev"] by simp
qed

text \<open>
  A registered link in a well-formed registry: the call of its stored closure does not
  throw.
\<close>

lemma release_succeeds:
  assumes "lifecycle_inv (registry s)" and "reg_matches i s" and "registered i s"
  shows "fst (release_registration i s) = None"
proof -
  from assms(3) obtain t where t: "(t, i) \<in> set (callbacks (registry s))"
    by (auto simp: registered_def)
  then have u: "unobserve (links s i) = Some t" using assms(2) by (simp add: reg_matches_iff)
  from t have "callbacks (registry s) \<noteq> []" by auto
  then obtain w where "observer (registry s) = Some w"
    using assms(1) by (auto simp: lifecycle_inv_def)
  then show ?thesis using u
    by (simp add: release_registration_def unobserve_fn_def Let_def split: prod.splits)
qed

text \<open>
  After \<open>onBeforeUnmount\<close> and the clearing of the template ref, the link calls no hook,
  whatever events follow, as long as the ref is not set again.
\<close>

lemma no_hook_after_unmount:
  assumes "reg_matches i s" and "armed (links s i)"
    and "\<forall>x. SetEl i (Some x) \<notin> set evs"
  shows "hook_calls i (effects (run e (BeforeUnmount i # SetEl i None # evs) s))
           = hook_calls i (effects s)"
proof -
  let ?s2 = "step e (onBeforeUnmount i s) (SetEl i None)"
  have "\<not> registered i (onBeforeUnmount i s)"
    using release_self_unregistered [OF assms(1)] assms(2)
    by (simp add: registered_def unmount_registry)
  then have "dormant i ?s2" by (simp add: dormant_def registered_def upd_link_def)
  then have "hook_calls i (effects (run e evs ?s2)) = hook_calls i (effects ?s2)"
    using run_dormant [of i ?s2 evs e] assms(3) by simp
  then show ?thesis by (simp add: run_def upd_link_def unmount_hooks)
qed

text \<open>The sample link once its element is observed.\<close>

lemma sample_waiting_eval:
  "registry sample_waiting =
     \<lparr> observer = Some \<lparr> wid = 0, targets = {5} \<rparr>, callbacks = [(5, 0)], created = 1,
       disconnected = 0 \<rparr>"
  "unobserve (links sample_waiting 0) = Some 5"
  "idleId (links sample_waiting 0) = Some 1"
  "armed (links sample_waiting 0)"
  "effects sample_waiting = [OnNuxtReady 0, RequestIdleCallback 0 1]"
  by (simp_all add: sample_waiting_def sample_defs handler_defs)

section \<open>The claims\<close>

subsection \<open>C1: the visibility-triggered prefetch happens at most once\<close>

text \<open>
  Claim C1. For a link instance the visibility-triggered prefetch is attempted at most
  once. When the visibility callback of a registered link fires, it first calls the stored
  \<open>unobserve\<close> closure and clears it (no call has been logged yet, the link is no longer
  in the registry), and only then does the prefetch work, which calls the hook once.
  Whatever happens afterwards short of the idle callback of the link running again (the
  watcher firing any number of times, with any entries, other links coming and going), the
  link calls the hook at most once more while it is registered and never when it is not.
  Over a whole run that starts before the link is registered and in which its idle callback
  runs at most once, the hook is called at most once.
\<close>

theorem visibility_prefetch_at_most_once:
  "(lifecycle_inv (registry s) \<and> reg_matches i s \<and> registered i s \<longrightarrow>
      fst (release_registration i s) = None
      \<and> effects (snd (release_registration i s)) = effects s
      \<and> unobserve (links (snd (release_registration i s)) i) = None
      \<and> \<not> registered i (snd (release_registration i s))
      \<and> visibility_callback e i s = prefetch_work e i (snd (release_registration i s))
      \<and> hook_calls i (effects (visibility_callback e i s)) = hook_calls i (effects s) + 1)
   \<and> (reg_matches i s \<and> Idle i \<notin> set evs \<longrightarrow>
        hook_calls i (effects (run e evs s))
          \<le> hook_calls i (effects s) + (if registered i s then 1 else 0))
   \<and> (\<not> registered i s \<and> count_list evs (Idle i) \<le> 1 \<longrightarrow>
        hook_calls i (effects (run e evs s)) \<le> hook_calls i (effects s) + 1)"
proof -
  have first: "fst (release_registration i s) = None"
    if l: "lifecycle_inv (registry s)" and m: "reg_matches i s" and r: "registered i s"
  proof -
    from r obtain t where t: "(t, i) \<in> set (callbacks (registry s))"
      by (auto simp: registered_def)
    then have u: "unobserve (links s i) = Some t" using m by (simp add: reg_matches_iff)
    from t have "callbacks (registry s) \<noteq> []" by auto
    then obtain w where "observer (registry s) = Some w"
      using l by (auto simp: lifecycle_inv_def)
    then show ?thesis using u
      by (simp add: release_registration_def unobserve_fn_def Let_def split: prod.splits)
  qed
  have a: "unobserve (links (snd (release_registration i s)) i) = None"
    if "fst (release_registration i s) = None"
    using that by (simp add: release_links_self)
  have b: "visibility_callback e i s = prefetch_work e i (snd (release_registration i s))"
    if "fst (release_registration i s) = None"
    using that by (cases "release_registration i s") (simp add: visibility_callback_def)
  have c: "hook_calls i (effects (visibility_callback e i s)) = hook_calls i (effects s) + 1"
    if "fst (release_registration i s) = None"
    using that by (simp add: vis_hooks)
  have d: "hook_calls i (effects (run e evs s))
             \<le> hook_calls i (effects s) + (if registered i s then 1 else 0)"
    if "reg_matches i s" and "Idle i \<notin> set evs"
  proof -
    have "pending i (run e evs s) \<le> pending i s" using run_inv [OF that] by simp
    then show ?thesis by (simp add: pending_def split: if_splits)
  qed
  show ?thesis
    using first a b c d release_effects [of i s] release_self_unregistered [of i s]
      once_per_idle_callback [of i s evs e]
    by blast
qed

theorem visibility_prefetch_at_most_once_witness:
  "lifecycle_inv (registry sample_waiting) \<and> reg_matches 0 sample_waiting
   \<and> registered 0 sample_waiting
   \<and> Idle 0 \<notin> set [Intersect [sample_entry, sample_entry], Intersect [sample_entry]]
   \<and> \<not> registered 0 sample_link
   \<and> count_list [SetEl 0 (Some 5), Mounted 0, Ready 0 1, Idle 0,
                  Intersect [sample_entry, sample_entry], Intersect [sample_entry]] (Idle 0) \<le> 1
   \<and> fst (release_registration 0 sample_waiting) = None
   \<and> unobserve (links (snd (release_registration 0 sample_waiting)) 0) = None
   \<and> \<not> registered 0 (snd (release_registration 0 sample_waiting))
   \<and> hook_calls 0 (effects (visibility_callback sample_env 0 sample_waiting)) = 1
   \<and> hook_calls 0 (effects (run sample_env
         [Intersect [sample_entry, sample_entry], Intersect [sample_entry]] sample_waiting)) \<le> 1
   \<and> hook_calls 0 (effects (run sample_env
         [SetEl 0 (Some 5), Mounted 0, Ready 0 1, Idle 0,
          Intersect [sample_entry, sample_entry], Intersect [sample_entry]] sample_link)) \<le> 1"
proof -
  have h1: "lifecycle_inv (registry sample_waiting)"
    by (simp add: lifecycle_inv_def sample_waiting_eval)
  have h2: "reg_matches 0 sample_waiting"
    by (simp add: reg_matches_def sample_waiting_eval)
  have h3: "registered 0 sample_waiting"
    by (simp add: registered_def sample_waiting_eval)
  have h4: "Idle 0 \<notin> set [Intersect [sample_entry, sample_entry], Intersect [sample_entry]]"
    by simp
  have h5: "hook_calls 0 (effects sample_waiting) = 0"
    by (simp add: sample_waiting_eval)
  have h6: "\<not> registered 0 sample_link"
    by (simp add: registered_def sample_defs setup_prefetch_def)
  have h7: "count_list [SetEl 0 (Some 5), Mounted 0, Ready 0 1, Idle 0,
                  Intersect [sample_entry, sample_entry], Intersect [sample_entry]] (Idle 0) \<le> 1"
    by simp
  have h8: "hook_calls 0 (effects sample_link) = 0"
    by (simp add: sample_defs setup_prefetch_def)
  note t = visibility_prefetch_at_most_once [where s = sample_waiting and i = 0
      and e = sample_env
      and evs = "[Intersect [sample_entry, sample_entry], Intersect [sample_entry]]"]
  note t' = visibility_prefetch_at_most_once [where s = sample_link and i = 0
      and e = sample_env
      and evs = "[SetEl 0 (Some 5), Mounted 0, Ready 0 1, Idle 0,
                  Intersect [sample_entry, sample_entry], Intersect [sample_entry]]"]
  have a: "fst (release_registration 0 sample_waiting) = None
           \<and> unobserve (links (snd (release_registration 0 sample_waiting)) 0) = None
           \<and> \<not> registered 0 (snd (release_registration 0 sample_waiting))"
    using t h1 h2 h3 by blast
  have "hook_calls 0 (effects (visibility_callback sample_env 0 sample_waiting))
          = hook_calls 0 (effects sample_waiting) + 1"
    using t h1 h2 h3 by blast
  then have b: "hook_calls 0 (effects (visibility_callback sample_env 0 sample_waiting)) = 1"
    using h5 by simp
  have "hook_calls 0 (effects (run sample_env
         [Intersect [sample_entry, sample_entry], Intersect [sample_entry]] sample_waiting))
          \<le> hook_calls 0 (effects sample_waiting) + (if registered 0 sample_waiting then 1 else 0)"
    using t h2 h4 by blast
  then have c: "hook_calls 0 (effects (run sample_env
         [Intersect [sample_entry, sample_entry], Intersect [sample_entry]] sample_waiting)) \<le> 1"
    using h3 h5 by simp
  have "hook_calls 0 (effects (run sample_env
         [SetEl 0 (Some 5), Mounted 0, Ready 0 1, Idle 0,
          Intersect [sample_entry, sample_entry], Intersect [sample_entry]] sample_link))
          \<le> hook_calls 0 (effects sample_link) + 1"
    using t' h6 h7 by blast
  then have d: "hook_calls 0 (effects (run sample_env
         [SetEl 0 (Some 5), Mounted 0, Ready 0 1, Idle 0,
          Intersect [sample_entry, sample_entry], Intersect [sample_entry]] sample_link)) \<le> 1"
    using h8 by simp
  show ?thesis using h1 h2 h3 h4 h6 h7 a b c d by blast
qed

subsection \<open>C2: the lifecycle of the shared watcher\<close>

text \<open>
  Claim C2. After every sequence of \<open>observe\<close> calls and calls of returned \<open>unobserve\<close>
  closures, starting with no watcher, a watcher exists exactly when an element is
  registered, it observes exactly the registered elements, and all earlier instances have
  been disconnected. An \<open>observe\<close> on an empty registry creates a new instance that
  observes only the new element; an \<open>observe\<close> on a non-empty registry keeps the instance
  and creates none. An \<open>unobserve\<close> that empties the map disconnects the instance and
  clears the reference; one that leaves the map non-empty keeps the instance.
\<close>

theorem watcher_lifecycle:
  "let r = run_ops ops initial_registry in
     lifecycle_inv r
     \<and> (callbacks r = [] \<longrightarrow>
          observer r = None \<and> created r = disconnected r
          \<and> observe x c r =
              \<lparr> observer = Some \<lparr> wid = created r, targets = {x} \<rparr>, callbacks = [(x, c)],
                created = Suc (created r), disconnected = disconnected r \<rparr>)
     \<and> (callbacks r \<noteq> [] \<longrightarrow>
          created r = Suc (disconnected r)
          \<and> (\<exists>w. observer r = Some w
                 \<and> observer (observe x c r) = Some (w\<lparr> targets := insert x (targets w) \<rparr>))
          \<and> created (observe x c r) = created r
          \<and> disconnected (observe x c r) = disconnected r)
     \<and> (callbacks r \<noteq> [] \<and> callbacks (snd (unobserve_fn x r)) = [] \<longrightarrow>
          fst (unobserve_fn x r) = None
          \<and> observer (snd (unobserve_fn x r)) = None
          \<and> disconnected (snd (unobserve_fn x r)) = Suc (disconnected r)
          \<and> created (snd (unobserve_fn x r)) = created r)
     \<and> (callbacks (snd (unobserve_fn x r)) \<noteq> [] \<longrightarrow>
          fst (unobserve_fn x r) = None
          \<and> map_option wid (observer (snd (unobserve_fn x r))) = map_option wid (observer r)
          \<and> disconnected (snd (unobserve_fn x r)) = disconnected r
          \<and> created (snd (unobserve_fn x r)) = created r)"
proof -
  define r :: "('a, 'b) registry" where "r = run_ops ops initial_registry"
  have i: "lifecycle_inv r" unfolding r_def by (rule inv_run_ops [OF inv_initial])
  have a: "callbacks r = [] \<Longrightarrow> observer r = None \<and> created r = disconnected r"
    using i by (auto simp: lifecycle_inv_def)
  have b: "callbacks r \<noteq> [] \<Longrightarrow> created r = Suc (disconnected r)
          \<and> (\<exists>w. observer r = Some w
                 \<and> observer (observe x c r) = Some (w\<lparr> targets := insert x (targets w) \<rparr>))
          \<and> created (observe x c r) = created r
          \<and> disconnected (observe x c r) = disconnected r"
    using i by (auto simp: lifecycle_inv_def observe_def Let_def)
  show ?thesis
    unfolding Let_def r_def [symmetric]
    using i a b observe_fresh [of r x c] unobserve_dispose [of r x] unobserve_keep [of r x]
    by blast
qed

theorem watcher_lifecycle_witness:
  "callbacks (run_ops [Observe (5::nat) (10::nat), Unobserve 5] initial_registry) = []
   \<and> observe 6 20 (run_ops [Observe (5::nat) (10::nat), Unobserve 5] initial_registry) =
       \<lparr> observer = Some \<lparr> wid = 1, targets = {6} \<rparr>, callbacks = [(6, 20)],
         created = 2, disconnected = 1 \<rparr>
   \<and> callbacks (run_ops [Observe (5::nat) (10::nat), Observe 6 20] initial_registry) \<noteq> []
   \<and> created (observe 7 30 (run_ops [Observe (5::nat) (10::nat), Observe 6 20] initial_registry)) = 1
   \<and> callbacks (snd (unobserve_fn 6
        (run_ops [Observe (5::nat) (10::nat), Observe 6 20] initial_registry))) \<noteq> []
   \<and> fst (unobserve_fn 6
        (run_ops [Observe (5::nat) (10::nat), Observe 6 20] initial_registry)) = None
   \<and> callbacks (run_ops [Observe (5::nat) (10::nat)] initial_registry) \<noteq> []
   \<and> callbacks (snd (unobserve_fn 5 (run_ops [Observe (5::nat) (10::nat)] initial_registry))) = []
   \<and> observer (snd (unobserve_fn 5 (run_ops [Observe (5::nat) (10::nat)] initial_registry))) = None
   \<and> disconnected (snd (unobserve_fn 5 (run_ops [Observe (5::nat) (10::nat)] initial_registry))) = 1"
proof -
  have e1: "run_ops [Observe (5::nat) (10::nat), Unobserve 5] initial_registry =
              \<lparr> observer = None, callbacks = [], created = 1, disconnected = 1 \<rparr>"
    by (simp add: run_ops_def observe_def unobserve_fn_def initial_registry_def Let_def)
  have e2: "run_ops [Observe (5::nat) (10::nat), Observe 6 20] initial_registry =
              \<lparr> observer = Some \<lparr> wid = 0, targets = {6, 5} \<rparr>, callbacks = [(5, 10), (6, 20)],
                created = 1, disconnected = 0 \<rparr>"
    by (simp add: run_ops_def observe_def unobserve_fn_def initial_registry_def Let_def)
  have e3: "run_ops [Observe (5::nat) (10::nat)] initial_registry =
              \<lparr> observer = Some \<lparr> wid = 0, targets = {5} \<rparr>, callbacks = [(5, 10)],
                created = 1, disconnected = 0 \<rparr>"
    by (simp add: run_ops_def observe_def unobserve_fn_def initial_registry_def Let_def)
  have c1: "callbacks (run_ops [Observe (5::nat) (10::nat), Unobserve 5] initial_registry) = []"
    by (simp add: e1)
  have c2: "callbacks (run_ops [Observe (5::nat) (10::nat), Observe 6 20] initial_registry) \<noteq> []"
    by (simp add: e2)
  have c3: "callbacks (snd (unobserve_fn 6
        (run_ops [Observe (5::nat) (10::nat), Observe 6 20] initial_registry))) \<noteq> []"
    by (simp add: e2 unobserve_fn_def Let_def)
  have c4: "callbacks (run_ops [Observe (5::nat) (10::nat)] initial_registry) \<noteq> []"
    by (simp add: e3)
  have c5: "callbacks (snd (unobserve_fn 5 (run_ops [Observe (5::nat) (10::nat)] initial_registry))) = []"
    by (simp add: e3 unobserve_fn_def Let_def)
  have a: "observe 6 20 (run_ops [Observe (5::nat) (10::nat), Unobserve 5] initial_registry) =
       \<lparr> observer = Some \<lparr> wid = 1, targets = {6} \<rparr>, callbacks = [(6, 20)],
         created = 2, disconnected = 1 \<rparr>"
    using watcher_lifecycle [of "[Observe (5::nat) (10::nat), Unobserve 5]" 6 20] c1
    by (simp add: Let_def e1)
  have b: "created (observe 7 30 (run_ops [Observe (5::nat) (10::nat), Observe 6 20] initial_registry)) = 1"
    using watcher_lifecycle [of "[Observe (5::nat) (10::nat), Observe 6 20]" 7 30] c2
    by (simp add: Let_def e2)
  have c: "fst (unobserve_fn 6
        (run_ops [Observe (5::nat) (10::nat), Observe 6 20] initial_registry)) = None"
    using watcher_lifecycle [of "[Observe (5::nat) (10::nat), Observe 6 20]" 6 20] c3
    by (simp add: Let_def)
  have d: "observer (snd (unobserve_fn 5 (run_ops [Observe (5::nat) (10::nat)] initial_registry))) = None
     \<and> disconnected (snd (unobserve_fn 5 (run_ops [Observe (5::nat) (10::nat)] initial_registry))) = 1"
    using watcher_lifecycle [of "[Observe (5::nat) (10::nat)]" 5 10] c4 c5
    by (simp add: Let_def e3)
  show ?thesis using c1 c2 c3 c4 c5 a b c d by blast
qed

subsection \<open>C3: nothing is prefetched after unmount\<close>

text \<open>
  Claim C3. The framework unmounts a link by running \<open>onBeforeUnmount\<close> and then, in the
  same step, clearing the template ref; it does not set the ref of an unmounted link
  again. For an armed link that is registered only under the element of its stored
  closure, \<open>onBeforeUnmount\<close> cancels the idle request whose handle it holds (handles are
  positive numbers), leaves the link out of the registry, and, when the link was
  registered, calls the stored closure without error and clears it. After the unmount the
  link never calls the prefetch hook, whatever callbacks run afterwards and in whatever
  order, its own idle callback included, whether the scheduler runs it or it is triggered
  by hand. The same holds over a whole run that starts before the link is registered and
  in which its idle callback runs at most once before the unmount: wherever the unmount
  falls, also before the ready callback or between the ready and the idle callback, no
  hook call is made after it.
\<close>

theorem unmount_stops_prefetch:
  "(reg_matches i s \<and> armed (links s i) \<longrightarrow>
      (\<forall>h. idleId (links s i) = Some h \<and> h \<noteq> 0 \<longrightarrow>
           effects (onBeforeUnmount i s) =
             effects s @ CancelIdleCallback i h #
               (case fst (release_registration i s) of
                  None \<Rightarrow> [] | Some err \<Rightarrow> [Thrown i err]))
      \<and> \<not> registered i (onBeforeUnmount i s)
      \<and> (lifecycle_inv (registry s) \<and> registered i s \<longrightarrow>
           fst (release_registration i s) = None
           \<and> unobserve (links (onBeforeUnmount i s) i) = None)
      \<and> ((\<forall>x. SetEl i (Some x) \<notin> set evs) \<longrightarrow>
           hook_calls i (effects (run e (BeforeUnmount i # SetEl i None # evs) s))
             = hook_calls i (effects s)))
   \<and> (\<not> registered i s \<and> armed (links s i) \<and> count_list pre (Idle i) \<le> 1
        \<and> (\<forall>x. SetEl i (Some x) \<notin> set evs) \<longrightarrow>
        hook_calls i (effects (run e (pre @ BeforeUnmount i # SetEl i None # evs) s))
          = hook_calls i (effects (run e pre s)))"
proof -
  have a: "effects (onBeforeUnmount i s) =
              effects s @ CancelIdleCallback i h #
                (case fst (release_registration i s) of
                   None \<Rightarrow> [] | Some err \<Rightarrow> [Thrown i err])"
    if "armed (links s i)" "idleId (links s i) = Some h" "h \<noteq> 0" for h
    using that release_effects [of i s]
    by (auto simp: onBeforeUnmount_def release_emit split: prod.splits option.splits)
  have b: "\<not> registered i (onBeforeUnmount i s)"
    if "reg_matches i s" "armed (links s i)"
    using release_self_unregistered [OF that(1)] that(2)
    by (simp add: registered_def unmount_registry)
  have c: "unobserve (links (onBeforeUnmount i s) i) = None"
    if "armed (links s i)" "fst (release_registration i s) = None"
    using that by (simp add: unmount_links release_links_self)
  have d: "hook_calls i (effects (run e (pre @ BeforeUnmount i # SetEl i None # evs) s))
             = hook_calls i (effects (run e pre s))"
    if u: "\<not> registered i s" and ar: "armed (links s i)"
      and once: "count_list pre (Idle i) \<le> 1" and n: "\<forall>x. SetEl i (Some x) \<notin> set evs"
  proof -
    have m: "reg_matches i (run e pre s)" by (rule run_reg_matches [OF u once])
    have r: "armed (links (run e pre s) i)" using ar by (simp add: run_armed)
    have "run e (pre @ BeforeUnmount i # SetEl i None # evs) s
            = run e (BeforeUnmount i # SetEl i None # evs) (run e pre s)"
      by (simp add: run_def)
    then show ?thesis using no_hook_after_unmount [OF m r n] by simp
  qed
  have first: "(\<forall>h. idleId (links s i) = Some h \<and> h \<noteq> 0 \<longrightarrow>
           effects (onBeforeUnmount i s) =
             effects s @ CancelIdleCallback i h #
               (case fst (release_registration i s) of
                  None \<Rightarrow> [] | Some err \<Rightarrow> [Thrown i err]))
      \<and> \<not> registered i (onBeforeUnmount i s)
      \<and> (lifecycle_inv (registry s) \<and> registered i s \<longrightarrow>
           fst (release_registration i s) = None
           \<and> unobserve (links (onBeforeUnmount i s) i) = None)
      \<and> ((\<forall>x. SetEl i (Some x) \<notin> set evs) \<longrightarrow>
           hook_calls i (effects (run e (BeforeUnmount i # SetEl i None # evs) s))
             = hook_calls i (effects s))"
    if m: "reg_matches i s" and ar: "armed (links s i)"
  proof (intro conjI allI impI)
    fix h assume "idleId (links s i) = Some h \<and> h \<noteq> 0"
    then show "effects (onBeforeUnmount i s) =
             effects s @ CancelIdleCallback i h #
               (case fst (release_registration i s) of
                  None \<Rightarrow> [] | Some err \<Rightarrow> [Thrown i err])"
      using a [OF ar] by simp
  next
    show "\<not> registered i (onBeforeUnmount i s)" by (rule b [OF m ar])
  next
    assume "lifecycle_inv (registry s) \<and> registered i s"
    then show "fst (release_registration i s) = None"
      using release_succeeds [of s i] m by simp
  next
    assume "lifecycle_inv (registry s) \<and> registered i s"
    then have "fst (release_registration i s) = None"
      using release_succeeds [of s i] m by simp
    then show "unobserve (links (onBeforeUnmount i s) i) = None" by (rule c [OF ar])
  next
    assume "\<forall>x. SetEl i (Some x) \<notin> set evs"
    then show "hook_calls i (effects (run e (BeforeUnmount i # SetEl i None # evs) s))
             = hook_calls i (effects s)"
      by (rule no_hook_after_unmount [OF m ar])
  qed
  show ?thesis using first d by blast
qed

theorem unmount_stops_prefetch_witness:
  "reg_matches 0 sample_waiting \<and> armed (links sample_waiting 0)
   \<and> idleId (links sample_waiting 0) = Some 1 \<and> (1::nat) \<noteq> 0
   \<and> lifecycle_inv (registry sample_waiting) \<and> registered 0 sample_waiting
   \<and> (\<forall>x. SetEl 0 (Some x) \<notin> set [Ready 0 2, Idle 0, Intersect [sample_entry], Idle 0])
   \<and> \<not> registered 0 sample_link \<and> armed (links sample_link 0)
   \<and> count_list [SetEl 0 (Some 5), Mounted 0, Ready 0 1] (Idle 0) \<le> 1
   \<and> (\<forall>x. SetEl 0 (Some x) \<notin> set [Idle 0, Intersect [sample_entry]])
   \<and> count_list [SetEl 0 (Some 5), Mounted 0] (Idle 0) \<le> 1
   \<and> (\<forall>x. SetEl 0 (Some x) \<notin> set [Ready 0 1, Idle 0, Intersect [sample_entry]])
   \<and> effects (onBeforeUnmount 0 sample_waiting) =
        [OnNuxtReady 0, RequestIdleCallback 0 1, CancelIdleCallback 0 1]
   \<and> \<not> registered 0 (onBeforeUnmount 0 sample_waiting)
   \<and> fst (release_registration 0 sample_waiting) = None
   \<and> unobserve (links (onBeforeUnmount 0 sample_waiting) 0) = None
   \<and> hook_calls 0 (effects (run sample_env
        (BeforeUnmount 0 # SetEl 0 None # [Ready 0 2, Idle 0, Intersect [sample_entry], Idle 0])
        sample_waiting)) = 0
   \<and> hook_calls 0 (effects (run sample_env
        ([SetEl 0 (Some 5), Mounted 0, Ready 0 1] @ BeforeUnmount 0 # SetEl 0 None #
           [Idle 0, Intersect [sample_entry]]) sample_link)) = 0
   \<and> hook_calls 0 (effects (run sample_env
        ([SetEl 0 (Some 5), Mounted 0] @ BeforeUnmount 0 # SetEl 0 None #
           [Ready 0 1, Idle 0, Intersect [sample_entry]]) sample_link)) = 0"
proof -
  have h1: "reg_matches 0 sample_waiting"
    by (simp add: reg_matches_def sample_waiting_eval)
  have h2: "armed (links sample_waiting 0)"
    by (simp add: sample_waiting_eval)
  have h3: "idleId (links sample_waiting 0) = Some 1 \<and> (1::nat) \<noteq> 0"
    by (simp add: sample_waiting_eval)
  have h4: "lifecycle_inv (registry sample_waiting)"
    by (simp add: lifecycle_inv_def sample_waiting_eval)
  have h5: "registered 0 sample_waiting"
    by (simp add: registered_def sample_waiting_eval)
  have h6: "\<forall>x. SetEl 0 (Some x) \<notin> set [Ready 0 2, Idle 0, Intersect [sample_entry], Idle 0]"
    by simp
  have h7: "\<not> registered 0 sample_link"
    by (simp add: registered_def sample_defs setup_prefetch_def)
  have h8: "armed (links sample_link 0)"
    by (simp add: sample_defs setup_prefetch_def shouldPrefetch_def isSlowConnection_def
          is_true_def)
  have h9: "count_list [SetEl 0 (Some 5), Mounted 0, Ready 0 1] (Idle 0) \<le> 1"
    by simp
  have h10: "\<forall>x. SetEl 0 (Some x) \<notin> set [Idle 0, Intersect [sample_entry]]"
    by simp
  have h11: "count_list [SetEl 0 (Some 5), Mounted 0] (Idle 0) \<le> 1"
    by simp
  have h12: "\<forall>x. SetEl 0 (Some x) \<notin> set [Ready 0 1, Idle 0, Intersect [sample_entry]]"
    by simp
  have z1: "hook_calls 0 (effects sample_waiting) = 0"
    by (simp add: sample_waiting_eval)
  have z2: "hook_calls 0 (effects (run sample_env [SetEl 0 (Some 5), Mounted 0, Ready 0 1]
              sample_link)) = 0"
    by (simp add: sample_defs handler_defs)
  have z3: "hook_calls 0 (effects (run sample_env [SetEl 0 (Some 5), Mounted 0]
              sample_link)) = 0"
    by (simp add: sample_defs handler_defs)
  have z4: "effects sample_waiting @ [CancelIdleCallback 0 1]
              = [OnNuxtReady 0, RequestIdleCallback 0 1, CancelIdleCallback 0 1]"
    by (simp add: sample_waiting_eval)
  note t1 = unmount_stops_prefetch [where i = 0 and s = sample_waiting and e = sample_env
      and evs = "[Ready 0 2, Idle 0, Intersect [sample_entry], Idle 0]"]
  note t2 = unmount_stops_prefetch [where i = 0 and s = sample_link and e = sample_env
      and pre = "[SetEl 0 (Some 5), Mounted 0, Ready 0 1]"
      and evs = "[Idle 0, Intersect [sample_entry]]"]
  note t3 = unmount_stops_prefetch [where i = 0 and s = sample_link and e = sample_env
      and pre = "[SetEl 0 (Some 5), Mounted 0]"
      and evs = "[Ready 0 1, Idle 0, Intersect [sample_entry]]"]
  have r: "fst (release_registration 0 sample_waiting) = None
           \<and> unobserve (links (onBeforeUnmount 0 sample_waiting) 0) = None
           \<and> \<not> registered 0 (onBeforeUnmount 0 sample_waiting)"
    using t1 h1 h2 h4 h5 by blast
  have "effects (onBeforeUnmount 0 sample_waiting) =
          effects sample_waiting @ CancelIdleCallback 0 1 #
            (case fst (release_registration 0 sample_waiting) of
               None \<Rightarrow> [] | Some err \<Rightarrow> [Thrown 0 err])"
    using t1 h1 h2 h3 by blast
  then have c: "effects (onBeforeUnmount 0 sample_waiting) =
        [OnNuxtReady 0, RequestIdleCallback 0 1, CancelIdleCallback 0 1]"
    using r z4 by simp
  have "hook_calls 0 (effects (run sample_env
        (BeforeUnmount 0 # SetEl 0 None # [Ready 0 2, Idle 0, Intersect [sample_entry], Idle 0])
        sample_waiting)) = hook_calls 0 (effects sample_waiting)"
    using t1 h1 h2 h6 by blast
  then have d1: "hook_calls 0 (effects (run sample_env
        (BeforeUnmount 0 # SetEl 0 None # [Ready 0 2, Idle 0, Intersect [sample_entry], Idle 0])
        sample_waiting)) = 0"
    using z1 by simp
  have "hook_calls 0 (effects (run sample_env
        ([SetEl 0 (Some 5), Mounted 0, Ready 0 1] @ BeforeUnmount 0 # SetEl 0 None #
           [Idle 0, Intersect [sample_entry]]) sample_link))
        = hook_calls 0 (effects (run sample_env [SetEl 0 (Some 5), Mounted 0, Ready 0 1]
              sample_link))"
    using t2 h7 h8 h9 h10 by blast
  then have d2: "hook_calls 0 (effects (run sample_env
        ([SetEl 0 (Some 5), Mounted 0, Ready 0 1] @ BeforeUnmount 0 # SetEl 0 None #
           [Idle 0, Intersect [sample_entry]]) sample_link)) = 0"
    using z2 by simp
  have "hook_calls 0 (effects (run sample_env
        ([SetEl 0 (Some 5), Mounted 0] @ BeforeUnmount 0 # SetEl 0 None #
           [Ready 0 1, Idle 0, Intersect [sample_entry]]) sample_link))
        = hook_calls 0 (effects (run sample_env [SetEl 0 (Some 5), Mounted 0] sample_link))"
    using t3 h7 h8 h11 h12 by blast
  then have d3: "hook_calls 0 (effects (run sample_env
        ([SetEl 0 (Some 5), Mounted 0] @ BeforeUnmount 0 # SetEl 0 None #
           [Ready 0 1, Idle 0, Intersect [sample_entry]]) sample_link)) = 0"
    using z3 by simp
  show ?thesis
    using h1 h2 h3 h4 h5 h6 h7 h8 h9 h10 h11 h12 r c d1 d2 d3 by blast
qed

subsection \<open>C4: external or internal\<close>

text \<open>
  Claim C4. \<open>isExternal\<close> decides as the specification's ordered rule does, on the
  computed target \<open>to.value\<close>: external flag, then a non-empty target attribute other
  than \<open>_self\<close>, then route object (internal), then empty string (external), then a
  string for which \<open>hasProtocol\<close> with \<open>acceptRelative\<close> holds (external), else internal.
  For the empty string the link is external, its \<open>href\<close> is \<open>null\<close>, and outside custom
  mode the anchor is rendered with that \<open>null\<close> href.
\<close>

theorem isExternal_classification:
  "isExternal e props = (classify_spec e props = External)
   \<and> (to_value e props = Str [] \<longrightarrow>
        isExternal e props \<and> external_href e props = None
        \<and> (\<not> is_true (custom props) \<longrightarrow>
             (\<exists>r t c. render e props slot pf = Anchor None r t c)))"
  by (auto simp: isExternal_def classify_spec_def is_true_def nonempty_def isProtocolURL_def
        external_href_def render_def Let_def
      split: option.splits location.splits)

theorem isExternal_classification_witness:
  "to_value sample_env (default_props\<lparr> to := Some (Str []) \<rparr>) = Str []
   \<and> \<not> is_true (custom (default_props\<lparr> to := Some (Str []) \<rparr> :: unit props))
   \<and> isExternal sample_env (default_props\<lparr> to := Some (Str []) \<rparr>)
   \<and> classify_spec sample_env (default_props\<lparr> to := Some (Str []) \<rparr>) = External
   \<and> external_href sample_env (default_props\<lparr> to := Some (Str []) \<rparr>) = None
   \<and> (\<exists>r t c. render sample_env (default_props\<lparr> to := Some (Str []) \<rparr>)
                  (None :: nat slot option) False = Anchor None r t c)"
proof -
  have h1: "to_value sample_env (default_props\<lparr> to := Some (Str []) \<rparr>) = Str []"
    by (simp add: url_defs sample_defs)
  have h2: "\<not> is_true (custom (default_props\<lparr> to := Some (Str []) \<rparr> :: unit props))"
    by (simp add: is_true_def default_props_def)
  show ?thesis
    using isExternal_classification [of sample_env "default_props\<lparr> to := Some (Str []) \<rparr>"
            "None :: nat slot option" False] h1 h2
    by blast
qed

subsection \<open>C5: calling the returned function twice\<close>

text \<open>
  Claim C5 as stated says that a second call of the function returned by \<open>observe\<close>
  neither fails nor changes anything. After the only element has been observed and
  released, the watcher is gone, and the second call throws a \<open>TypeError\<close>.
\<close>

theorem unobserve_twice_counterexample:
  "fst (unobserve_fn (5::nat) (observe 5 (10::nat) initial_registry)) = None
   \<and> observer (snd (unobserve_fn (5::nat) (observe 5 (10::nat) initial_registry))) = None
   \<and> fst (unobserve_fn 5 (snd (unobserve_fn (5::nat) (observe 5 (10::nat) initial_registry))))
       = Some TypeError"
  by (simp add: unobserve_fn_def observe_def initial_registry_def Let_def)

text \<open>
  Claim C5, amended. A second call right after a first call that returned never changes
  the registry; it returns normally when the watcher still exists (another element is
  still registered) and throws a \<open>TypeError\<close> when the first call disposed the watcher.
\<close>

theorem unobserve_twice:
  "fst (unobserve_fn x r) = None \<longrightarrow>
     unobserve_fn x (snd (unobserve_fn x r)) =
       ((if observer (snd (unobserve_fn x r)) = None then Some TypeError else None),
        snd (unobserve_fn x r))"
  by (auto simp: unobserve_fn_def Let_def delete_idem split: option.splits if_splits)

theorem unobserve_twice_witness:
  "fst (unobserve_fn (5::nat) (observe 5 (10::nat) (observe 6 20 initial_registry))) = None
   \<and> unobserve_fn 5
        (snd (unobserve_fn (5::nat) (observe 5 (10::nat) (observe 6 20 initial_registry))))
       = (None, snd (unobserve_fn (5::nat) (observe 5 (10::nat) (observe 6 20 initial_registry))))"
proof -
  have h: "fst (unobserve_fn (5::nat) (observe 5 (10::nat) (observe 6 20 initial_registry))) = None"
    by (simp add: unobserve_fn_def observe_def initial_registry_def Let_def)
  have o: "observer (snd (unobserve_fn (5::nat)
             (observe 5 (10::nat) (observe 6 20 initial_registry)))) \<noteq> None"
    by (simp add: unobserve_fn_def observe_def initial_registry_def Let_def)
  show ?thesis
    using unobserve_twice [of "5::nat" "observe 5 (10::nat) (observe 6 20 initial_registry)"] h o
    by simp
qed

subsection \<open>C6: when a link arms its prefetch\<close>

text \<open>
  Claim C6. In a client build the hooks of a link are installed exactly when \<open>prefetch\<close>
  is not \<open>false\<close>, \<open>noPrefetch\<close> is not \<open>true\<close>, \<open>target\<close> is not \<open>_blank\<close> and the
  connection is not slow, where slow means that \<open>navigator.connection\<close> exists and has
  \<open>saveData\<close> set or an \<open>effectiveType\<close> containing \<open>2g\<close>; in a server build they are never
  installed. A link whose hooks are not installed never calls the prefetch hook, whatever
  events follow.
\<close>

theorem arming_conditions:
  "(armed (links (setup_prefetch server cn i props s) i) \<longleftrightarrow>
      \<not> server \<and> prefetch props \<noteq> Some False \<and> noPrefetch props \<noteq> Some True
      \<and> target props \<noteq> Some ''_blank''
      \<and> \<not> (case cn of None \<Rightarrow> False
                      | Some c \<Rightarrow> saveData c \<or> contains ''2g'' (effectiveType c)))
   \<and> (\<not> armed (links (setup_prefetch server cn i props s) i) \<and> \<not> registered i s \<longrightarrow>
        hook_calls i (effects (run e evs (setup_prefetch server cn i props s)))
          = hook_calls i (effects s))"
proof -
  let ?s1 = "setup_prefetch server cn i props s"
  have a: "armed (links ?s1 i) \<longleftrightarrow>
      \<not> server \<and> prefetch props \<noteq> Some False \<and> noPrefetch props \<noteq> Some True
      \<and> target props \<noteq> Some ''_blank''
      \<and> \<not> (case cn of None \<Rightarrow> False
                      | Some c \<Rightarrow> saveData c \<or> contains ''2g'' (effectiveType c))"
    by (auto simp: setup_prefetch_def shouldPrefetch_def isSlowConnection_def is_true_def
             split: option.splits)
  have b: "hook_calls i (effects (run e evs ?s1)) = hook_calls i (effects s)"
    if "\<not> armed (links ?s1 i)" "\<not> registered i s"
  proof -
    have "dormant i ?s1" using that by (simp add: dormant_def registered_def setup_prefetch_def)
    then have "hook_calls i (effects (run e evs ?s1)) = hook_calls i (effects ?s1)"
      using run_dormant [of i ?s1 evs e] that(1) by simp
    then show ?thesis by (simp add: setup_prefetch_def)
  qed
  show ?thesis using a b by blast
qed

theorem arming_conditions_witness:
  "\<not> armed (links (setup_prefetch False (Some slow_connection) 0 default_props
                     (initial_sys :: (nat, unit) sys)) 0)
   \<and> \<not> registered 0 (initial_sys :: (nat, unit) sys)
   \<and> hook_calls 0 (effects (run sample_env
        [SetEl 0 (Some 5), Mounted 0, Ready 0 1, Idle 0, Intersect [sample_entry]]
        (setup_prefetch False (Some slow_connection) 0 default_props initial_sys))) = 0"
proof -
  have h1: "\<not> armed (links (setup_prefetch False (Some slow_connection) 0 default_props
                     (initial_sys :: (nat, unit) sys)) 0)"
    by (simp add: setup_prefetch_def shouldPrefetch_def isSlowConnection_def is_true_def
                  slow_connection_def default_props_def)
  have h2: "\<not> registered 0 (initial_sys :: (nat, unit) sys)"
    by (simp add: registered_def initial_sys_def initial_registry_def)
  show ?thesis
    using arming_conditions [where server = False and cn = "Some slow_connection" and i = 0
            and props = default_props and s = "initial_sys :: (nat, unit) sys" and e = sample_env
            and evs = "[SetEl 0 (Some 5), Mounted 0, Ready 0 1, Idle 0, Intersect [sample_entry]]"]
          h1 h2
    by (simp add: initial_sys_def)
qed

subsection \<open>C7: trailing slashes, protocols and fragments\<close>

text \<open>
  Claim C7 says that the fragment of a string is appended again verbatim. The code keeps
  only the text between the first and the second \<open>#\<close>: for a string with two \<open>#\<close> the
  result is the normalised first piece followed by \<open>#a\<close>, and the rest of the fragment,
  \<open>#b\<close>, is lost. This holds for every URL library; the string begins with \<open>http\<close>, so
  the protocol test does not return it unchanged.
\<close>

theorem applyTrailingSlashBehavior_second_hash:
  "applyTrailingSlashBehavior u ''https://nuxt.com/docs#a#b'' ts
     = normalizeFn u ts ''https://nuxt.com/docs'' True @ ''#a''
   \<and> applyTrailingSlashBehavior u ''https://nuxt.com/docs#a#b'' ts
     \<noteq> normalizeFn u ts ''https://nuxt.com/docs'' True @ ''#a#b''"
  by (simp add: applyTrailingSlashBehavior_def startsWith_def)

subsection \<open>C8: a route object loses its name\<close>

text \<open>
  Claim C8. With a trailing-slash policy of \<open>append\<close> or \<open>remove\<close>, a route object comes
  back with \<open>name\<close> set to \<open>undefined\<close> and \<open>path\<close> set to the normalised path, the path
  being the object's own \<open>path\<close> or, without one, the path that the router resolves; its
  other keys are kept.
\<close>

theorem resolveTrailingSlashBehavior_clears_name:
  assumes "trailingSlash os = Some ts"
  shows "resolveTrailingSlashBehavior u os rs (Obj ob) =
     Obj (ob\<lparr> name := None,
              path := Some (applyTrailingSlashBehavior u
                             (case path ob of Some p \<Rightarrow> p | None \<Rightarrow> r_path (rs (Obj ob))) ts) \<rparr>)"
  using assms by (simp add: resolveTrailingSlashBehavior_def)

theorem resolveTrailingSlashBehavior_clears_name_witness:
  "trailingSlash (sample_options\<lparr> trailingSlash := Some Remove \<rparr>) = Some Remove
   \<and> resolveTrailingSlashBehavior sample_ufo (sample_options\<lparr> trailingSlash := Some Remove \<rparr>)
        sample_resolve (Obj \<lparr> name = Some ''x'', path = Some ''/a'', rest = () \<rparr>)
       = Obj \<lparr> name = None, path = Some ''/a'', rest = () \<rparr>"
proof -
  have h: "trailingSlash (sample_options\<lparr> trailingSlash := Some Remove \<rparr>) = Some Remove"
    by simp
  have a: "applyTrailingSlashBehavior sample_ufo ''/a'' Remove = ''/a''"
    by (simp add: applyTrailingSlashBehavior_def normalizeFn_def sample_ufo_def startsWith_def)
  show ?thesis
    using resolveTrailingSlashBehavior_clears_name [OF h, of sample_ufo sample_resolve
            "\<lparr> name = Some ''x'', path = Some ''/a'', rest = () \<rparr>"] a
    by simp
qed

subsection \<open>C9: the rel attribute of an external link\<close>

text \<open>
  Claim C9 as stated says that an empty string sends the search on to the next fallback.
  With \<open>rel\<close> set to the empty string and a configured default of \<open>nofollow\<close>, the code
  gives \<open>null\<close>, where the rule as worded gives \<open>nofollow\<close>.
\<close>

theorem external_rel_empty_string_counterexample:
  "external_rel (sample_options\<lparr> externalRelAttribute := Val ''nofollow'' \<rparr>)
     (default_props\<lparr> rel := Val [] \<rparr> :: unit props) (Some ''https://nuxt.com'') = None
   \<and> rel_spec (sample_options\<lparr> externalRelAttribute := Val ''nofollow'' \<rparr>)
     (default_props\<lparr> rel := Val [] \<rparr> :: unit props) (Some ''https://nuxt.com'')
       = Some ''nofollow''"
  by (simp add: external_rel_def rel_spec_def is_true_def default_props_def sample_options_def)

text \<open>
  Claim C9, amended. With \<open>noRel\<close> set the result is \<open>null\<close>. Otherwise the first value
  that is not \<open>undefined\<close> is taken among the \<open>rel\<close> prop, the configured default and a
  last candidate, which is \<open>noopener noreferrer\<close> when \<open>href\<close> is a non-empty string and
  the empty string otherwise; the result is that value, or \<open>null\<close> when that value is
  \<open>null\<close> or the empty string. No later candidate is consulted in that case.
\<close>

theorem external_rel_resolution:
  "external_rel os props h =
    (if is_true (noRel props) then None
     else (case rel props of
             Val s \<Rightarrow> (if s = [] then None else Some s)
           | Null \<Rightarrow> None
           | Undefined \<Rightarrow>
              (case externalRelAttribute os of
                 Val s \<Rightarrow> (if s = [] then None else Some s)
               | Null \<Rightarrow> None
               | Undefined \<Rightarrow> (if nonempty h then Some ''noopener noreferrer'' else None))))"
  by (auto simp: external_rel_def DEFAULT_EXTERNAL_REL_ATTRIBUTE_def split: nullable.splits)

subsection \<open>C10: custom mode without a slot\<close>

text \<open>
  Claim C10. For an external link in custom mode, the render function returns \<open>null\<close>
  when no default slot is given: no anchor is produced and no slot is called.
\<close>

theorem custom_external_without_slot:
  "isExternal e props \<Longrightarrow> is_true (custom props) \<Longrightarrow> render e props None pf = RenderNull"
  by (simp add: render_def Let_def)

theorem custom_external_without_slot_witness:
  "isExternal sample_env
     (default_props\<lparr> to := Some (Str ''https://nuxt.com''), custom := Some True \<rparr>)
   \<and> is_true (custom (default_props\<lparr> to := Some (Str ''https://nuxt.com''),
                                      custom := Some True \<rparr> :: unit props))
   \<and> render sample_env
        (default_props\<lparr> to := Some (Str ''https://nuxt.com''), custom := Some True \<rparr>)
        (None :: nat slot option) False = RenderNull"
proof -
  have h1: "isExternal sample_env
     (default_props\<lparr> to := Some (Str ''https://nuxt.com''), custom := Some True \<rparr>)"
    by (simp add: url_defs sample_defs is_true_def)
  have h2: "is_true (custom (default_props\<lparr> to := Some (Str ''https://nuxt.com''),
                                      custom := Some True \<rparr> :: unit props))"
    by (simp add: is_true_def)
  show ?thesis using custom_external_without_slot [OF h1 h2, of False] h1 h2 by simp
qed

end
